theory Spec2Isabelle
  imports Main
begin

section \<open>json-templates: the data model\<close>

text \<open>
  The module \<^verbatim>\<open>index.js\<close> compiles a JSON-like value with placeholders such as
  \<^verbatim>\<open>{{foo}}\<close> or \<^verbatim>\<open>{{foo:someDefault}}\<close> into a function of a context.

  JavaScript values are a datatype. Numbers are the integer-valued ones (floating
  point is not modelled), and only of the safe integers, below \<open>2 ^ 53\<close> in absolute
  value, does the model know the string form, which is their decimal notation (from
  \<open>10 ^ 21\<close> on JavaScript writes an exponent); a string is a list of characters, one
  \<^typ>\<open>char\<close> per code unit below 256; an object is the list of its own enumerable properties, in the order in which
  they were created (JavaScript enumerates keys that are array indices before the
  others; nothing below depends on that), and a well-formed object has pairwise distinct
  keys. A function value carries the outcome of calling it: the value it returns or the
  exception it throws. Functions whose outcome depends on arguments or on earlier calls
  are outside the model.
\<close>

datatype error = TypeError | Thrown string

datatype jv =
    JUndefined
  | JNull
  | JBool bool
  | JNum int
  | JStr string
  | JDate int
  | JArr "jv list"
  | JObj "(string \<times> jv) list"
  | JFn "error + jv"

type_synonym result = "error + jv"

text \<open>The operator \<^verbatim>\<open>typeof\<close>.\<close>

fun typeof :: "jv \<Rightarrow> string" where
  "typeof JUndefined = ''undefined''"
| "typeof JNull = ''object''"
| "typeof (JBool _) = ''boolean''"
| "typeof (JNum _) = ''number''"
| "typeof (JStr _) = ''string''"
| "typeof (JDate _) = ''object''"
| "typeof (JArr _) = ''object''"
| "typeof (JObj _) = ''object''"
| "typeof (JFn _) = ''function''"

text \<open>
  \<^verbatim>\<open>function type(value)\<close>: an enhanced \<^verbatim>\<open>typeof\<close> that tells arrays, dates and
  \<^verbatim>\<open>null\<close> apart.
\<close>

fun type :: "jv \<Rightarrow> string" where
  "type (JArr _) = ''array''"
| "type (JDate _) = ''date''"
| "type JNull = ''null''"
| "type v = typeof v"

section \<open>Strings\<close>

text \<open>
  White space as \<^verbatim>\<open>String.prototype.trim\<close> and the class \<^verbatim>\<open>\s\<close> see it, among the
  code units below 256: tab, line feed, vertical tab, form feed, carriage return,
  space and no-break space.
\<close>

definition is_space :: "char \<Rightarrow> bool" where
  "is_space c \<longleftrightarrow>
     c \<in> set [CHR 0x09, CHR 0x0A, CHR 0x0B, CHR 0x0C, CHR 0x0D, CHR 0x20, CHR 0xA0]"

definition trim :: "string \<Rightarrow> string" where
  "trim s = rev (dropWhile is_space (rev (dropWhile is_space s)))"

text \<open>
  \<^verbatim>\<open>s.substr(start, length)\<close> for a start within the string: a negative length
  gives the empty string. \<^verbatim>\<open>s.substr(start)\<close> runs to the end of the string.
\<close>

definition substr :: "string \<Rightarrow> nat \<Rightarrow> int \<Rightarrow> string" where
  "substr s start len = take (nat len) (drop start s)"

definition substr_from :: "string \<Rightarrow> nat \<Rightarrow> string" where
  "substr_from s start = drop start s"

text \<open>\<^verbatim>\<open>s.indexOf(c)\<close> for a one-character search string: the first index, or -1.\<close>

fun indexOf :: "string \<Rightarrow> char \<Rightarrow> int" where
  "indexOf [] c = - 1"
| "indexOf (x # xs) c =
     (if x = c then 0 else (let i = indexOf xs c in if i = - 1 then - 1 else i + 1))"

definition startsWith :: "string \<Rightarrow> string \<Rightarrow> bool" where
  "startsWith s p \<longleftrightarrow> take (length p) s = p"

definition endsWith :: "string \<Rightarrow> string \<Rightarrow> bool" where
  "endsWith s p \<longleftrightarrow> length p \<le> length s \<and> drop (length s - length p) s = p"

section \<open>The placeholder tokenizer\<close>

text \<open>
  The regular expression of \<^verbatim>\<open>parseString\<close> is
  \<^verbatim>\<open>/{{(\w|:|[\{\}\"\[\]\s-+.,@/\//()?=*_$])+?}}/g\<close>.
  One repetition of the group consumes one character: a word character, a colon, or a
  member of the bracketed class. In that class \<^verbatim>\<open>\s-+\<close> is no range (a class escape
  cannot bound one): it stands for white space, the hyphen and the plus sign.
\<close>

definition is_word :: "char \<Rightarrow> bool" where
  "is_word c \<longleftrightarrow>
     c \<in> set ''abcdefghijklmnopqrstuvwxyzABCDEFGHIJKLMNOPQRSTUVWXYZ0123456789_''"

definition in_class :: "char \<Rightarrow> bool" where
  "in_class c \<longleftrightarrow>
     is_word c \<or> c = CHR '':'' \<or> is_space c \<or> c = CHR 0x22 \<or>
     c \<in> set ''{}[]-+.,@/()?=*_$''"

text \<open>
  The text after the opening braces and the first class character. The quantifier is
  lazy: the closing braces are tried before one more class character is consumed. Since
  every repetition consumes exactly one character, the attempt at a start position fails
  as soon as a character outside the class comes before any closing braces. The result
  is the rest of the match, closing braces included.
\<close>

fun lazy_rest :: "string \<Rightarrow> string option" where
  "lazy_rest [] = None"
| "lazy_rest (c # cs) =
     (if startsWith (c # cs) ''}}'' then Some ''}}''
      else if in_class c then map_option ((#) c) (lazy_rest cs)
      else None)"

text \<open>The match that starts at the very beginning of the text, if there is one.\<close>

definition match_here :: "string \<Rightarrow> string option" where
  "match_here s =
     (case s of
        a # b # c # cs \<Rightarrow>
          if a = CHR ''{'' \<and> b = CHR ''{'' \<and> in_class c
          then map_option (\<lambda>r. a # b # c # r) (lazy_rest cs)
          else None
      | _ \<Rightarrow> None)"

text \<open>
  \<^verbatim>\<open>str.match(regex)\<close> with the global flag: all matches from left to right, the search
  going on right after each match. The first argument counts the characters still
  covered by the previous match. (JavaScript returns \<^verbatim>\<open>null\<close> where this list is
  empty; \<^verbatim>\<open>parseString\<close> calls it only after a successful \<^verbatim>\<open>regex.test\<close>.)
\<close>

fun scan :: "nat \<Rightarrow> string \<Rightarrow> string list" where
  "scan k [] = []"
| "scan (Suc k) (c # cs) = scan k cs"
| "scan 0 (c # cs) =
     (case match_here (c # cs) of
        Some m \<Rightarrow> m # scan (length m - 1) cs
      | None \<Rightarrow> scan 0 cs)"

definition str_match :: "string \<Rightarrow> string list" where
  "str_match s = scan 0 s"

text \<open>
  The regular expression object is shared by all calls of \<^verbatim>\<open>parseString\<close> and is
  global, so it has a state: \<^verbatim>\<open>lastIndex\<close>. \<^verbatim>\<open>regex.test(str)\<close> searches from
  \<^verbatim>\<open>lastIndex\<close>; on success it stores the end of the match, on failure 0.
  \<^verbatim>\<open>str.match(regex)\<close> starts from 0 and leaves 0 behind.
\<close>

fun search_from :: "nat \<Rightarrow> string \<Rightarrow> nat option" where
  "search_from i [] = None"
| "search_from i (c # cs) =
     (case match_here (c # cs) of
        Some m \<Rightarrow> Some (i + length m)
      | None \<Rightarrow> search_from (Suc i) cs)"

definition regex_test :: "nat \<Rightarrow> string \<Rightarrow> bool \<times> nat" where
  "regex_test lastIndex s =
     (if lastIndex > length s then (False, 0)
      else case search_from lastIndex (drop lastIndex s) of
             Some e \<Rightarrow> (True, e)
           | None \<Rightarrow> (False, 0))"

section \<open>Parameters\<close>

record parameter =
  key :: string
  defaultValue :: "string option"

text \<open>
  \<^verbatim>\<open>function Parameter(match)\<close>: a parameter object from a match result. A parameter
  without the property \<^verbatim>\<open>defaultValue\<close> has \<^term>\<open>None\<close> there.
\<close>

definition Parameter :: "string \<Rightarrow> parameter" where
  "Parameter match =
     (let matchValue = trim (substr match 2 (int (length match) - 4));
          i = indexOf matchValue CHR '':''
      in if i \<noteq> - 1
         then \<lparr>key = substr matchValue 0 i,
               defaultValue = Some (substr_from matchValue (nat (i + 1)))\<rparr>
         else \<lparr>key = matchValue, defaultValue = None\<rparr>)"

section \<open>Collaborators\<close>

text \<open>
  Three libraries are used and are not part of the module: the path lookup
  \<^verbatim>\<open>objectPath.get(context, key)\<close>, the sandboxed evaluator
  \<^verbatim>\<open>safeEval(source, context)\<close>, which may throw, and \<^verbatim>\<open>dedupe\<close>. The first two
  are parameters of the model, together with what the JavaScript engine answers when a
  value is converted to a string and the model does not know the answer: for a value
  that is no primitive (the conversion runs user code such as \<^verbatim>\<open>toString\<close>, and
  may throw) and for a number that is no safe integer.
\<close>

record host =
  objectPath_get :: "jv \<Rightarrow> string \<Rightarrow> jv"
  safeEval :: "jv \<Rightarrow> jv \<Rightarrow> result"
  toString_host :: "jv \<Rightarrow> error + string"

text \<open>
  Modelled from the spec: \<^verbatim>\<open>dedupe(list, keyFn)\<close>, of the package \<^verbatim>\<open>dedupe\<close>, is
  not in the repository. It returns a new ordered list containing only the first element
  observed for each distinct \<^verbatim>\<open>keyFn\<close> result, preserving the input order of first
  occurrences. The first argument of \<open>dedupe_from\<close> lists the results already observed.
\<close>

fun dedupe_from :: "'k list \<Rightarrow> 'a list \<Rightarrow> ('a \<Rightarrow> 'k) \<Rightarrow> 'a list" where
  "dedupe_from seen [] f = []"
| "dedupe_from seen (x # xs) f =
     (if f x \<in> set seen then dedupe_from seen xs f
      else x # dedupe_from (f x # seen) xs f)"

definition dedupe :: "'a list \<Rightarrow> ('a \<Rightarrow> 'k) \<Rightarrow> 'a list" where
  "dedupe xs f = dedupe_from [] xs f"

section \<open>Conversions and string replacement\<close>

fun string_of_nat :: "nat \<Rightarrow> string" where
  "string_of_nat n =
     (if n < 10 then [''0123456789'' ! n]
      else string_of_nat (n div 10) @ [''0123456789'' ! (n mod 10)])"

declare string_of_nat.simps [simp del]

definition string_of_int :: "int \<Rightarrow> string" where
  "string_of_int i =
     (if i < 0 then CHR ''-'' # string_of_nat (nat (- i)) else string_of_nat (nat i))"

text \<open>
  \<^verbatim>\<open>ToString\<close>, which \<^verbatim>\<open>replace\<close> applies to its replacement and a property
  assignment to its key. A safe integer is written in decimal notation; the string of
  any other number, like that of a value that is no primitive, is the host's.
\<close>

fun to_string :: "host \<Rightarrow> jv \<Rightarrow> error + string" where
  "to_string H JUndefined = Inr ''undefined''"
| "to_string H JNull = Inr ''null''"
| "to_string H (JBool b) = Inr (if b then ''true'' else ''false'')"
| "to_string H (JNum n) =
     (if \<bar>n\<bar> < 2 ^ 53 then Inr (string_of_int n) else toString_host H (JNum n))"
| "to_string H (JStr s) = Inr s"
| "to_string H v = toString_host H v"

text \<open>\<^verbatim>\<open>context || {}\<close> replaces a falsy context.\<close>

fun truthy :: "jv \<Rightarrow> bool" where
  "truthy JUndefined = False"
| "truthy JNull = False"
| "truthy (JBool b) = b"
| "truthy (JNum n) = (n \<noteq> 0)"
| "truthy (JStr s) = (s \<noteq> [])"
| "truthy v = True"

text \<open>
  The first occurrence of a pattern in a text: the text before it and the text after
  it.
\<close>

fun split_first :: "string \<Rightarrow> string \<Rightarrow> (string \<times> string) option" where
  "split_first p [] = (if p = [] then Some ([], []) else None)"
| "split_first p (c # cs) =
     (if startsWith (c # cs) p then Some ([], drop (length p) (c # cs))
      else map_option (\<lambda>(b, a). (c # b, a)) (split_first p cs))"

text \<open>
  A replacement string is not inserted as it is: \<^verbatim>\<open>$$\<close> inserts a dollar sign,
  \<^verbatim>\<open>$&\<close> the matched text, \<^verbatim>\<open>$`\<close> the text before the match and \<^verbatim>\<open>$'\<close> the
  text after it. A string pattern has no groups, so a dollar sign before anything else
  stays.
\<close>

fun get_substitution :: "string \<Rightarrow> string \<Rightarrow> string \<Rightarrow> string \<Rightarrow> string" where
  "get_substitution m b a [] = []"
| "get_substitution m b a [c] = [c]"
| "get_substitution m b a (c # d # r) =
     (if c = CHR ''$'' \<and> d = CHR ''$'' then CHR ''$'' # get_substitution m b a r
      else if c = CHR ''$'' \<and> d = CHR ''&'' then m @ get_substitution m b a r
      else if c = CHR ''$'' \<and> d = CHR 0x60 then b @ get_substitution m b a r
      else if c = CHR ''$'' \<and> d = CHR 0x27 then a @ get_substitution m b a r
      else c # get_substitution m b a (d # r))"

text \<open>\<^verbatim>\<open>s.replace(pattern, replacement)\<close> for a string pattern and a replacement string.\<close>

definition string_replace :: "string \<Rightarrow> string \<Rightarrow> string \<Rightarrow> string" where
  "string_replace s p r =
     (case split_first p s of
        None \<Rightarrow> s
      | Some (b, a) \<Rightarrow> b @ get_substitution p b a r @ a)"

text \<open>
  The expression \<^verbatim>\<open>str.replace(match, value)\<close> of the reducer, where \<^verbatim>\<open>str\<close> is the
  accumulator and may be any value. On a string it is \<^verbatim>\<open>String.prototype.replace\<close>: a
  function as replacement is called when the pattern occurs, and what it returns is
  inserted as it is. \<^verbatim>\<open>null\<close> and \<^verbatim>\<open>undefined\<close> have no properties, and of the
  other values only an object with a property \<^verbatim>\<open>replace\<close> of its own that is a
  function can be called, with the outcome of that function as the result; everything
  else is a \<^verbatim>\<open>TypeError\<close>.
\<close>

definition js_replace :: "host \<Rightarrow> jv \<Rightarrow> string \<Rightarrow> jv \<Rightarrow> result" where
  "js_replace H str match v =
     (case str of
        JStr s \<Rightarrow>
          (case v of
             JFn r \<Rightarrow>
               (case split_first match s of
                  None \<Rightarrow> Inr (JStr s)
                | Some (b, a) \<Rightarrow>
                    (case r of
                       Inl e \<Rightarrow> Inl e
                     | Inr x \<Rightarrow>
                         (case to_string H x of
                            Inl e \<Rightarrow> Inl e
                          | Inr t \<Rightarrow> Inr (JStr (b @ t @ a)))))
           | _ \<Rightarrow>
               (case to_string H v of
                  Inl e \<Rightarrow> Inl e
                | Inr t \<Rightarrow> Inr (JStr (string_replace s match t))))
      | JObj props \<Rightarrow>
          (case map_of props ''replace'' of
             Some (JFn r) \<Rightarrow> r
           | _ \<Rightarrow> Inl TypeError)
      | _ \<Rightarrow> Inl TypeError)"

section \<open>Templates\<close>

record template =
  fn :: "jv \<Rightarrow> result"
  parameters :: "parameter list"

text \<open>
  \<^verbatim>\<open>function Template(fn, parameters)\<close>: a template function with its deduplicated
  \<^verbatim>\<open>parameters\<close> property.
\<close>

definition Template :: "(jv \<Rightarrow> result) \<Rightarrow> parameter list \<Rightarrow> template" where
  "Template f params = \<lparr>fn = f, parameters = dedupe params key\<rparr>"

text \<open>
  \<^verbatim>\<open>Array.prototype.reduce\<close> with an initial value, for a callback that may throw: the
  callback gets the accumulator, the element and its index, and an exception ends the
  reduction.
\<close>

fun reduce :: "('a \<Rightarrow> 'b \<Rightarrow> nat \<Rightarrow> error + 'a) \<Rightarrow> 'b list \<Rightarrow> nat \<Rightarrow> 'a \<Rightarrow> error + 'a" where
  "reduce f [] i acc = Inr acc"
| "reduce f (x # xs) i acc =
     (case f acc x i of
        Inl e \<Rightarrow> Inl e
      | Inr acc' \<Rightarrow> reduce f xs (Suc i) acc')"

text \<open>\<^verbatim>\<open>Array.prototype.map\<close> for a callback that may throw.\<close>

fun map_result :: "('a \<Rightarrow> error + 'b) \<Rightarrow> 'a list \<Rightarrow> error + 'b list" where
  "map_result f [] = Inr []"
| "map_result f (x # xs) =
     (case f x of
        Inl e \<Rightarrow> Inl e
      | Inr y \<Rightarrow> (case map_result f xs of Inl e \<Rightarrow> Inl e | Inr ys \<Rightarrow> Inr (y # ys)))"

subsection \<open>Strings\<close>

text \<open>
  The value of a placeholder after the default has been applied: the first statements
  of the reducer, up to the end of the block guarded by
  \<^verbatim>\<open>value === undefined || value == null\<close>. An exception of the evaluator is
  caught and leaves the default as it is.
\<close>

definition default_source :: "parameter \<Rightarrow> jv" where
  "default_source p = (case defaultValue p of None \<Rightarrow> JUndefined | Some d \<Rightarrow> JStr d)"

definition lookup_value :: "host \<Rightarrow> bool \<Rightarrow> jv \<Rightarrow> parameter \<Rightarrow> jv" where
  "lookup_value H evalDefaults context p =
     (let v = objectPath_get H context (key p)
      in if v = JUndefined \<or> v = JNull
         then (if evalDefaults
               then (case safeEval H (default_source p) context of
                       Inr w \<Rightarrow> w
                     | Inl _ \<Rightarrow> default_source p)
               else default_source p)
         else v)"

text \<open>\<^verbatim>\<open>if (typeof value === 'function') value = value()\<close>: the call may throw.\<close>

definition call_if_function :: "jv \<Rightarrow> result" where
  "call_if_function v = (case v of JFn r \<Rightarrow> r | _ \<Rightarrow> Inr v)"

text \<open>
  The condition \<^verbatim>\<open>matches.length === 1 && str.startsWith('{{') && str.endsWith('}}')\<close>
  on the accumulator \<^verbatim>\<open>str\<close>. With one match the accumulator is the string that
  was parsed; on a value that is no string, \<^verbatim>\<open>startsWith\<close> is no function.
\<close>

definition whole_string :: "nat \<Rightarrow> jv \<Rightarrow> error + bool" where
  "whole_string n str =
     (if n \<noteq> 1 then Inr False
      else case str of
             JStr s \<Rightarrow> Inr (startsWith s ''{{'' \<and> endsWith s ''}}'')
           | _ \<Rightarrow> Inl TypeError)"

text \<open>
  The rest of the reducer, from \<^verbatim>\<open>if (typeof value === 'object')\<close> on: what the
  callback returns for the value \<open>v\<close>, the accumulator \<open>str\<close> and \<open>n\<close> matches.
\<close>

definition substitute :: "host \<Rightarrow> nat \<Rightarrow> jv \<Rightarrow> string \<Rightarrow> jv \<Rightarrow> result" where
  "substitute H n str match v =
     (if typeof v = ''object'' then Inr v
      else if v = JUndefined \<or> v = JNull then Inr JNull
      else (case whole_string n str of
              Inl e \<Rightarrow> Inl e
            | Inr True \<Rightarrow> Inr v
            | Inr False \<Rightarrow> js_replace H str match v))"

text \<open>
  The callback of \<^verbatim>\<open>matches.reduce\<close> in \<^verbatim>\<open>parseString\<close>. Its first parameter
  hides the string that was parsed: inside, \<^verbatim>\<open>str\<close> is the accumulator.
\<close>

definition reducer ::
  "host \<Rightarrow> bool \<Rightarrow> string list \<Rightarrow> parameter list \<Rightarrow> jv \<Rightarrow> jv \<Rightarrow> string \<Rightarrow> nat \<Rightarrow> result" where
  "reducer H evalDefaults matches params context str match i =
     (let p = params ! i
      in case call_if_function (lookup_value H evalDefaults context p) of
           Inl e \<Rightarrow> Inl e
         | Inr v \<Rightarrow> substitute H (length matches) str match v)"

text \<open>\<^verbatim>\<open>context = context || {}\<close>.\<close>

definition context_or_empty :: "jv \<Rightarrow> jv" where
  "context_or_empty context = (if truthy context then context else JObj [])"

text \<open>
  \<^verbatim>\<open>parseString\<close>, with the state of the shared regular expression passed in and
  out. \<^verbatim>\<open>parameters[i]\<close> is always in range: there is one parameter per match.
\<close>

definition parseString_st :: "host \<Rightarrow> nat \<Rightarrow> string \<Rightarrow> bool \<Rightarrow> template \<times> nat" where
  "parseString_st H lastIndex str evalDefaults =
     (case regex_test lastIndex str of
        (True, _) \<Rightarrow>
          (let matches = str_match str;
               params = map Parameter matches;
               templateFn = (\<lambda>context.
                 reduce (reducer H evalDefaults matches params (context_or_empty context))
                   matches 0 (JStr str))
           in (Template templateFn params, 0))
      | (False, lastIndex') \<Rightarrow> (Template (\<lambda>context. Inr (JStr str)) [], lastIndex'))"

text \<open>
  Every call leaves \<^verbatim>\<open>lastIndex\<close> at 0 (lemma \<open>parseString_st_lastIndex\<close> below), and the
  module starts with 0, so every call starts from 0.
\<close>

definition parseString :: "host \<Rightarrow> string \<Rightarrow> bool \<Rightarrow> template" where
  "parseString H str evalDefaults = fst (parseString_st H 0 str evalDefaults)"

subsection \<open>Objects and arrays\<close>

text \<open>
  The assignment \<^verbatim>\<open>newObject[k] = v\<close> on the object that the reduction of
  \<^verbatim>\<open>parseObject\<close> builds from \<^verbatim>\<open>{}\<close>. A key that is there keeps its place and gets
  the new value, another key comes last. The key \<^verbatim>\<open>__proto__\<close> is special: an
  object inherits an accessor of that name, whose setter changes the prototype when the
  value is an object or \<^verbatim>\<open>null\<close>, does nothing otherwise, and in no case creates a
  property. Only when the prototype has become \<^verbatim>\<open>null\<close> is nothing inherited any more,
  and the key is a key like any other. So the object under construction is its
  properties and that flag. Which object the prototype has become is not part of the
  model, nor is what a later assignment would inherit from it (a function as prototype
  has read-only properties): the results below that speak of the properties assigned
  are about objects without the key \<^verbatim>\<open>__proto__\<close>.
\<close>

fun assign :: "(string \<times> jv) list \<Rightarrow> string \<Rightarrow> jv \<Rightarrow> (string \<times> jv) list" where
  "assign [] k v = [(k, v)]"
| "assign ((k', v') # props) k v =
     (if k' = k then (k, v) # props else (k', v') # assign props k v)"

definition set_property ::
  "(string \<times> jv) list \<times> bool \<Rightarrow> string \<Rightarrow> jv \<Rightarrow> (string \<times> jv) list \<times> bool" where
  "set_property newObject k v =
     (case newObject of
        (props, null_prototype) \<Rightarrow>
          if k = ''__proto__'' \<and> \<not> null_prototype then (props, v = JNull)
          else (assign props k v, null_prototype))"

record child =
  keyTemplate :: template
  valueTemplate :: template

text \<open>
  The callback of the reduction that renders an object: the key template runs first,
  then the value template, then the key is converted to a property key.
\<close>

definition object_reducer ::
  "host \<Rightarrow> jv \<Rightarrow> (string \<times> jv) list \<times> bool \<Rightarrow> child \<Rightarrow> nat \<Rightarrow>
   error + (string \<times> jv) list \<times> bool" where
  "object_reducer H context newObject c i =
     (case fn (keyTemplate c) context of
        Inl e \<Rightarrow> Inl e
      | Inr k \<Rightarrow>
          (case fn (valueTemplate c) context of
             Inl e \<Rightarrow> Inl e
           | Inr v \<Rightarrow>
               (case to_string H k of
                  Inl e \<Rightarrow> Inl e
                | Inr ks \<Rightarrow> Inr (set_property newObject ks v))))"

text \<open>
  \<^verbatim>\<open>parse\<close>, \<^verbatim>\<open>parseObject\<close> and \<^verbatim>\<open>parseArray\<close>. The equations of \<open>parse\<close> are
  the branches of \<^verbatim>\<open>switch (type(value))\<close> (lemma \<open>parse_by_type\<close> below).
  \<^verbatim>\<open>Object.keys(object).map\<close> is a map over the properties.
\<close>

fun parse :: "host \<Rightarrow> jv \<Rightarrow> bool \<Rightarrow> template"
  and parseObject :: "host \<Rightarrow> (string \<times> jv) list \<Rightarrow> bool \<Rightarrow> template"
  and parseArray :: "host \<Rightarrow> jv list \<Rightarrow> bool \<Rightarrow> template" where
  "parse H (JStr str) evalDefaults = parseString H str evalDefaults"
| "parse H (JObj object) evalDefaults = parseObject H object evalDefaults"
| "parse H (JArr array) evalDefaults = parseArray H array evalDefaults"
| "parse H v evalDefaults = Template (\<lambda>context. Inr v) []"
| "parseObject H object evalDefaults =
     (let children = map (\<lambda>(k, v).
            \<lparr>keyTemplate = parseString H k evalDefaults,
             valueTemplate = parse H v evalDefaults\<rparr>) object;
          templateParameters = foldl (\<lambda>params c.
            params @ parameters (valueTemplate c) @ parameters (keyTemplate c)) [] children;
          templateFn = (\<lambda>context.
            case reduce (object_reducer H context) children 0 ([], False) of
              Inl e \<Rightarrow> Inl e
            | Inr (props, _) \<Rightarrow> Inr (JObj props))
      in Template templateFn templateParameters)"
| "parseArray H array evalDefaults =
     (let templates = map (\<lambda>el. parse H el evalDefaults) array;
          templateParameters = foldl (\<lambda>params t. params @ parameters t) [] templates;
          templateFn = (\<lambda>context.
            case map_result (\<lambda>t. fn t context) templates of
              Inl e \<Rightarrow> Inl e
            | Inr vs \<Rightarrow> Inr (JArr vs))
      in Template templateFn templateParameters)"

section \<open>A host for examples\<close>

text \<open>
  Modelled from the spec: the path lookup \<^verbatim>\<open>get(contextObject, pathString)\<close>, of
  the package \<^verbatim>\<open>object-path\<close>, is not in the repository. It supports dotted segments
  and numeric or bracketed array-index segments, and returns \<^verbatim>\<open>undefined\<close> when any
  segment is missing.
\<close>

fun split_on :: "char \<Rightarrow> string \<Rightarrow> string list" where
  "split_on c [] = [[]]"
| "split_on c (x # xs) =
     (if x = c then [] # split_on c xs
      else (case split_on c xs of s # ss \<Rightarrow> (x # s) # ss | [] \<Rightarrow> [[x]]))"

definition segments :: "string \<Rightarrow> string list" where
  "segments path =
     split_on CHR ''.''
       (map (\<lambda>c. if c = CHR ''['' then CHR ''.'' else c) (filter (\<lambda>c. c \<noteq> CHR '']'') path))"

definition array_index :: "string \<Rightarrow> nat option" where
  "array_index seg =
     (if seg \<noteq> [] \<and> (\<forall>c \<in> set seg. c \<in> set ''0123456789'')
      then Some (foldl (\<lambda>n c. 10 * n + (of_char c - 48)) 0 seg)
      else None)"

fun get_segment :: "jv \<Rightarrow> string \<Rightarrow> jv" where
  "get_segment (JObj props) seg =
     (case map_of props seg of Some v \<Rightarrow> v | None \<Rightarrow> JUndefined)"
| "get_segment (JArr xs) seg =
     (case array_index seg of
        Some i \<Rightarrow> if i < length xs then xs ! i else JUndefined
      | None \<Rightarrow> JUndefined)"
| "get_segment v seg = JUndefined"

definition path_get :: "jv \<Rightarrow> string \<Rightarrow> jv" where
  "path_get context path = foldl get_segment context (segments path)"

text \<open>
  A host for the examples: the path lookup above, an evaluator that knows the one
  expression \<^verbatim>\<open>1+1\<close> and rejects every other source, and a conversion that
  answers with the string of a plain object (the examples convert no other object and
  no number beyond the safe integers).
\<close>

definition example_host :: host where
  "example_host =
     \<lparr>objectPath_get = path_get,
      safeEval = (\<lambda>source context.
        if source = JStr ''1+1'' then Inr (JNum 2) else Inl (Thrown ''SyntaxError'')),
      toString_host = (\<lambda>v. Inr ''[object Object]'')\<rparr>"

section \<open>Specification-level descriptions\<close>

text \<open>
  The text of a placeholder: the match without the two delimiter characters on each
  side, trimmed.
\<close>

definition placeholder_text :: "string \<Rightarrow> string" where
  "placeholder_text m = trim (take (length m - 4) (drop 2 m))"

text \<open>
  The split of a placeholder text at its first colon, both parts as they are: the key
  is what comes before the colon, the default what comes after it, and without a colon
  there is no default.
\<close>

definition split_first_colon :: "string \<Rightarrow> parameter" where
  "split_first_colon t =
     (if CHR '':'' \<in> set t
      then \<lparr>key = takeWhile (\<lambda>c. c \<noteq> CHR '':'') t,
            defaultValue = Some (tl (dropWhile (\<lambda>c. c \<noteq> CHR '':'') t))\<rparr>
      else \<lparr>key = t, defaultValue = None\<rparr>)"

text \<open>
  The same split in the words of the specification, where the left part is trimmed
  once more before it becomes the key.
\<close>

definition split_trimmed_key :: "string \<Rightarrow> parameter" where
  "split_trimmed_key t =
     (if CHR '':'' \<in> set t
      then \<lparr>key = trim (takeWhile (\<lambda>c. c \<noteq> CHR '':'') t),
            defaultValue = Some (tl (dropWhile (\<lambda>c. c \<noteq> CHR '':'') t))\<rparr>
      else \<lparr>key = trim t, defaultValue = None\<rparr>)"

text \<open>
  The reduction of \<^verbatim>\<open>parseString\<close> with the parameter of each match in place of
  \<^verbatim>\<open>parameters[i]\<close> (lemma \<open>fn_parseString\<close> below shows that it is the same).
\<close>

fun steps :: "host \<Rightarrow> bool \<Rightarrow> nat \<Rightarrow> jv \<Rightarrow> string list \<Rightarrow> jv \<Rightarrow> result" where
  "steps H ev n context [] str = Inr str"
| "steps H ev n context (m # ms) str =
     (case call_if_function (lookup_value H ev context (Parameter m)) of
        Inl e \<Rightarrow> Inl e
      | Inr v \<Rightarrow>
          (case substitute H n str m v of
             Inl e \<Rightarrow> Inl e
           | Inr str' \<Rightarrow> steps H ev n context ms str'))"

text \<open>
  The parameters of a template value in document order, before any deduplication: for
  a string its matches, for an object the parameters of each value before those of its
  key, key after key, and for an array element after element.
\<close>

fun document_parameters :: "jv \<Rightarrow> parameter list" where
  "document_parameters (JStr s) = map Parameter (str_match s)"
| "document_parameters (JObj object) =
     concat (map (\<lambda>(k, v). document_parameters v @ map Parameter (str_match k)) object)"
| "document_parameters (JArr array) = concat (map document_parameters array)"
| "document_parameters v = []"

text \<open>
  A value without placeholder syntax: no match of the tokenizer in any string leaf or
  object key.
\<close>

fun no_placeholder :: "jv \<Rightarrow> bool" where
  "no_placeholder (JStr s) \<longleftrightarrow> str_match s = []"
| "no_placeholder (JObj object) \<longleftrightarrow>
     (\<forall>(k, v) \<in> set object. str_match k = [] \<and> no_placeholder v)"
| "no_placeholder (JArr array) \<longleftrightarrow> (\<forall>v \<in> set array. no_placeholder v)"
| "no_placeholder v \<longleftrightarrow> True"

text \<open>A well-formed value: the keys of every object in it are pairwise distinct.\<close>

fun distinct_keys :: "jv \<Rightarrow> bool" where
  "distinct_keys (JObj object) \<longleftrightarrow>
     distinct (map fst object) \<and> (\<forall>(k, v) \<in> set object. distinct_keys v)"
| "distinct_keys (JArr array) \<longleftrightarrow> (\<forall>v \<in> set array. distinct_keys v)"
| "distinct_keys v \<longleftrightarrow> True"

text \<open>A value none of whose objects has a property of its own named \<^verbatim>\<open>__proto__\<close>.\<close>

fun no_proto_key :: "jv \<Rightarrow> bool" where
  "no_proto_key (JObj object) \<longleftrightarrow>
     (\<forall>(k, v) \<in> set object. k \<noteq> ''__proto__'' \<and> no_proto_key v)"
| "no_proto_key (JArr array) \<longleftrightarrow> (\<forall>v \<in> set array. no_proto_key v)"
| "no_proto_key v \<longleftrightarrow> True"

text \<open>
  Splicing in the words of the specification. \<open>T\<close> gives, for the text of a
  placeholder, the string that stands for its value. \<open>splice_first\<close> puts that string in
  place of the first occurrence of the placeholder's text in a string, and leaves a string
  without the text as it is. \<open>fill\<close> goes through a string as the tokenizer does and
  puts the string in place of every match, at the position of the match.
\<close>

definition splice_first :: "(string \<Rightarrow> string) \<Rightarrow> string \<Rightarrow> string \<Rightarrow> string" where
  "splice_first T acc m =
     (case split_first m acc of
        None \<Rightarrow> acc
      | Some (b, a) \<Rightarrow> b @ T m @ a)"

fun fill :: "(string \<Rightarrow> string) \<Rightarrow> nat \<Rightarrow> string \<Rightarrow> string" where
  "fill T k [] = []"
| "fill T (Suc k) (c # cs) = fill T k cs"
| "fill T 0 (c # cs) =
     (case match_here (c # cs) of
        Some m \<Rightarrow> T m @ fill T (length m - 1) cs
      | None \<Rightarrow> c # fill T 0 cs)"

text \<open>
  A text in which no match of the tokenizer can start, whatever follows it. The notion
  serves the proofs about \<open>fill\<close> only.
\<close>

definition inert :: "string \<Rightarrow> bool" where
  "inert u \<longleftrightarrow> (\<forall>i < length u. \<forall>z. match_here (drop i u @ z) = None)"

section \<open>The tokenizer and the parameter of a match\<close>

lemma indexOf_absent: "indexOf t c = - 1 \<longleftrightarrow> c \<notin> set t"
proof (induction t)
  case Nil
  show ?case by simp
next
  case (Cons x t)
  have lower: "- 1 \<le> indexOf u c" for u
    by (induction u) (auto simp: Let_def)
  from Cons lower [of t] show ?case by (auto simp: Let_def)
qed

lemma indexOf_present:
  "c \<in> set t \<Longrightarrow> indexOf t c = int (length (takeWhile (\<lambda>x. x \<noteq> c) t))"
  by (induction t) (auto simp: Let_def indexOf_absent)

lemma take_length_takeWhile: "take (length (takeWhile P xs)) xs = takeWhile P xs"
  by (induction xs) auto

lemma drop_Suc_length_takeWhile:
  "drop (Suc (length (takeWhile P xs))) xs = tl (dropWhile P xs)"
  by (induction xs) auto

lemma substr_whole: "substr m 2 (int (length m) - 4) = take (length m - 4) (drop 2 m)"
  by (simp add: substr_def nat_diff_distrib')

lemma Parameter_split: "Parameter m = split_first_colon (placeholder_text m)"
proof -
  define t where "t = placeholder_text m"
  have inner: "trim (substr m 2 (int (length m) - 4)) = t"
    by (simp add: t_def placeholder_text_def substr_whole)
  show ?thesis
  proof (cases "CHR '':'' \<in> set t")
    case True
    then have i: "indexOf t CHR '':'' = int (length (takeWhile (\<lambda>c. c \<noteq> CHR '':'') t))"
      by (rule indexOf_present)
    have "Parameter m =
        \<lparr>key = substr t 0 (indexOf t CHR '':''),
         defaultValue = Some (substr_from t (nat (indexOf t CHR '':'' + 1)))\<rparr>"
      using True by (simp add: Parameter_def inner Let_def indexOf_absent)
    also have "\<dots> = split_first_colon t"
      using True
      by (simp add: i split_first_colon_def substr_def substr_from_def
          take_length_takeWhile drop_Suc_length_takeWhile nat_add_distrib)
    finally show ?thesis by (simp add: t_def)
  next
    case False
    then have "indexOf t CHR '':'' = - 1" by (simp add: indexOf_absent)
    then have "Parameter m = \<lparr>key = t, defaultValue = None\<rparr>"
      by (simp add: Parameter_def inner Let_def)
    with False show ?thesis by (simp add: split_first_colon_def t_def)
  qed
qed

text \<open>A match is a prefix of the text it was found in, and is delimited by braces.\<close>

lemma lazy_rest_form:
  "lazy_rest cs = Some r \<Longrightarrow> \<exists>b. r = b @ ''}}'' \<and> (\<exists>rest. cs = r @ rest)"
proof (induction cs arbitrary: r)
  case Nil
  then show ?case by simp
next
  case (Cons c cs)
  show ?case
  proof (cases "startsWith (c # cs) ''}}''")
    case True
    with Cons.prems have r: "r = ''}}''" by simp
    from True have "take 2 (c # cs) = ''}}''" by (simp add: startsWith_def)
    then have "c # cs = ''}}'' @ drop 2 (c # cs)" by (metis append_take_drop_id)
    with r show ?thesis by (metis append_Nil)
  next
    case False
    with Cons.prems obtain r' where r': "lazy_rest cs = Some r'" "r = c # r'"
      by (auto split: if_splits)
    from Cons.IH [OF r'(1)] r'(2) show ?thesis by auto
  qed
qed

lemma match_here_form:
  assumes "match_here s = Some m"
  shows "\<exists>body. m = ''{{'' @ body @ ''}}'' \<and> body \<noteq> [] \<and> (\<exists>rest. s = m @ rest)"
proof -
  from assms obtain c cs r where s: "s = CHR ''{'' # CHR ''{'' # c # cs"
    and r: "lazy_rest cs = Some r" and m: "m = CHR ''{'' # CHR ''{'' # c # r"
    by (auto simp: match_here_def split: list.splits if_splits)
  from lazy_rest_form [OF r] obtain b rest where "r = b @ ''}}''" "cs = r @ rest" by auto
  with s m have "m = ''{{'' @ (c # b) @ ''}}''" "s = m @ rest" by auto
  then show ?thesis by blast
qed

lemma scan_matches: "m \<in> set (scan k s) \<Longrightarrow> \<exists>t. match_here t = Some m"
  by (induction k s rule: scan.induct) (auto split: option.splits)

lemma str_match_form:
  assumes "m \<in> set (str_match s)"
  shows "\<exists>body. m = ''{{'' @ body @ ''}}'' \<and> body \<noteq> []"
proof -
  from assms obtain t where "match_here t = Some m"
    unfolding str_match_def by (blast dest: scan_matches)
  from match_here_form [OF this] show ?thesis by blast
qed

text \<open>
  Claim C6, as amended. For every match of the tokenizer, the match starts with two
  opening braces and ends with two closing braces around at least one character; the
  text between them, trimmed, is split at its first colon only. What comes before the
  colon is the key as it is (it is not trimmed again, so white space before the colon
  stays in the key), what comes after it is the default as it is, and without a colon
  the parameter has no default.
\<close>

theorem Parameter_of_match:
  assumes "m \<in> set (str_match s)"
  shows "startsWith m ''{{'' \<and> endsWith m ''}}'' \<and> 5 \<le> length m \<and>
         Parameter m = split_first_colon (trim (take (length m - 4) (drop 2 m)))"
proof -
  from str_match_form [OF assms] obtain body
    where m: "m = ''{{'' @ body @ ''}}''" and "body \<noteq> []" by blast
  then have "0 < length body" by simp
  with m have "startsWith m ''{{''" "endsWith m ''}}''" "5 \<le> length m"
    by (simp_all add: startsWith_def endsWith_def Suc_le_eq)
  moreover have "Parameter m = split_first_colon (trim (take (length m - 4) (drop 2 m)))"
    using Parameter_split [of m] by (simp add: placeholder_text_def)
  ultimately show ?thesis by simp
qed

theorem Parameter_of_match_witness:
  "''{{ foo : bar }}'' \<in> set (str_match ''x {{ foo : bar }} y'') \<and>
   Parameter ''{{ foo : bar }}'' = \<lparr>key = ''foo '', defaultValue = Some '' bar''\<rparr>"
proof -
  have h: "''{{ foo : bar }}'' \<in> set (str_match ''x {{ foo : bar }} y'')"
    by code_simp
  have t: "trim (take (length ''{{ foo : bar }}'' - 4) (drop 2 ''{{ foo : bar }}'')) = ''foo : bar''"
    by code_simp
  have "split_first_colon ''foo : bar'' = \<lparr>key = ''foo '', defaultValue = Some '' bar''\<rparr>"
    by (simp add: split_first_colon_def)
  with Parameter_of_match [OF h] t h show ?thesis by simp
qed

text \<open>
  The claim as the specification states it trims the key. The match \<^verbatim>\<open>{{a :b}}\<close>
  has the key \<^verbatim>\<open>a\<close> followed by a space.
\<close>

theorem Parameter_key_not_trimmed:
  "''{{a :b}}'' \<in> set (str_match ''{{a :b}}'') \<and>
   Parameter ''{{a :b}}'' = \<lparr>key = ''a '', defaultValue = Some ''b''\<rparr> \<and>
   Parameter ''{{a :b}}'' \<noteq> split_trimmed_key (placeholder_text ''{{a :b}}'')"
  by code_simp

section \<open>The dispatcher and the compiled string template\<close>

text \<open>
  The equations of \<open>parse\<close> are the branches of the \<^verbatim>\<open>switch\<close>: \<open>type\<close> tells
  strings, objects and arrays apart, and every other value takes the default branch.
\<close>

lemma parse_by_type:
  "type v = ''string'' \<longleftrightarrow> (\<exists>s. v = JStr s)"
  "type v = ''object'' \<longleftrightarrow> (\<exists>object. v = JObj object)"
  "type v = ''array'' \<longleftrightarrow> (\<exists>array. v = JArr array)"
  "type v \<notin> {''string'', ''object'', ''array''} \<Longrightarrow>
     parse H v ev = Template (\<lambda>context. Inr v) []"
  by (cases v; simp)+

lemma search_from_scan: "search_from i s = None \<longleftrightarrow> scan 0 s = []"
  by (induction s arbitrary: i) (auto split: option.splits)

lemma regex_test_zero: "fst (regex_test 0 s) \<longleftrightarrow> str_match s \<noteq> []"
  using search_from_scan [of 0 s]
  by (auto simp: regex_test_def str_match_def split: option.splits)

lemma regex_test_False: "regex_test i s = (False, j) \<Longrightarrow> j = 0"
  by (auto simp: regex_test_def split: if_splits option.splits)

lemma parseString_st_lastIndex: "snd (parseString_st H i s ev) = 0"
  by (auto simp: parseString_st_def Let_def split: prod.splits bool.splits dest: regex_test_False)

lemma reduce_steps:
  "reduce (reducer H ev (pre @ ms) (map Parameter (pre @ ms)) c) ms (length pre) acc =
   steps H ev (length (pre @ ms)) c ms acc"
proof (induction ms arbitrary: pre acc)
  case Nil
  show ?case by simp
next
  case (Cons m ms)
  define f where "f = reducer H ev (pre @ m # ms) (map Parameter (pre @ m # ms)) c"
  define n where "n = length (pre @ m # ms)"
  have p: "map Parameter (pre @ m # ms) ! length pre = Parameter m"
    by (simp add: nth_append)
  have step: "f acc m (length pre) =
      (case call_if_function (lookup_value H ev c (Parameter m)) of
         Inl e \<Rightarrow> Inl e
       | Inr v \<Rightarrow> substitute H n acc m v)"
    unfolding f_def n_def reducer_def Let_def p ..
  have ih: "reduce f ms (Suc (length pre)) acc' = steps H ev n c ms acc'" for acc'
    using Cons.IH [of "pre @ [m]" acc'] by (simp add: f_def n_def)
  have "reduce f (m # ms) (length pre) acc = steps H ev n c (m # ms) acc"
    by (simp add: step ih split: sum.splits)
  then show ?case by (simp only: f_def n_def)
qed

lemma parseString_eq:
  "parseString H s ev =
     (if str_match s = [] then Template (\<lambda>context. Inr (JStr s)) []
      else Template (\<lambda>context. steps H ev (length (str_match s)) (context_or_empty context)
             (str_match s) (JStr s)) (map Parameter (str_match s)))"
proof -
  have r: "reduce (reducer H ev (str_match s) (map Parameter (str_match s)) c) (str_match s) 0 acc =
      steps H ev (length (str_match s)) c (str_match s) acc" for c acc
    using reduce_steps [of H ev "[]" "str_match s" c acc] by simp
  obtain b e where t: "regex_test 0 s = (b, e)" by (cases "regex_test 0 s")
  with regex_test_zero [of s] have b: "b \<longleftrightarrow> str_match s \<noteq> []" by simp
  show ?thesis
  proof (cases b)
    case True
    with t b show ?thesis by (simp add: parseString_def parseString_st_def r Let_def)
  next
    case False
    with t b show ?thesis by (simp add: parseString_def parseString_st_def)
  qed
qed

lemma fn_parseString:
  "fn (parseString H s ev) context =
     (if str_match s = [] then Inr (JStr s)
      else steps H ev (length (str_match s)) (context_or_empty context) (str_match s) (JStr s))"
  by (simp add: parseString_eq Template_def)

lemma parameters_parseString:
  "parameters (parseString H s ev) = dedupe (map Parameter (str_match s)) key"
  by (simp add: parseString_eq Template_def dedupe_def)

section \<open>Deduplication\<close>

lemma dedupe_from_twice:
  "set T \<subseteq> set S \<Longrightarrow> dedupe_from S (dedupe_from T xs f) f = dedupe_from S xs f"
proof (induction xs arbitrary: S T)
  case Nil
  show ?case by simp
next
  case (Cons x xs)
  show ?case
  proof (cases "f x \<in> set T")
    case True
    with Cons.prems have "f x \<in> set S" by auto
    with True Cons.IH [OF Cons.prems] show ?thesis by simp
  next
    case False
    from Cons.prems have sub: "set (f x # T) \<subseteq> set (f x # S)" by auto
    show ?thesis
    proof (cases "f x \<in> set S")
      case True
      then have "set (f x # T) \<subseteq> set S" using Cons.prems by auto
      from Cons.IH [OF this] True False show ?thesis by simp
    next
      case notin: False
      from Cons.IH [OF sub] notin False show ?thesis by simp
    qed
  qed
qed

lemma dedupe_from_cong_set:
  "set S = set T \<Longrightarrow> dedupe_from S xs f = dedupe_from T xs f"
proof (induction xs arbitrary: S T)
  case Nil
  show ?case by simp
next
  case (Cons x xs)
  from Cons.prems have m: "f x \<in> set S \<longleftrightarrow> f x \<in> set T" by simp
  from Cons.prems have "set (f x # S) = set (f x # T)" by simp
  then have "dedupe_from (f x # S) xs f = dedupe_from (f x # T) xs f" by (rule Cons.IH)
  moreover have "dedupe_from S xs f = dedupe_from T xs f" using Cons.prems by (rule Cons.IH)
  ultimately show ?case using m by simp
qed

lemma dedupe_from_keys:
  "f ` set (dedupe_from S xs f) \<union> set S = f ` set xs \<union> set S"
proof (induction xs arbitrary: S)
  case Nil
  show ?case by simp
next
  case (Cons x xs)
  show ?case
  proof (cases "f x \<in> set S")
    case True
    with Cons.IH [of S] show ?thesis by auto
  next
    case False
    have "f ` set (dedupe_from (f x # S) xs f) \<union> insert (f x) (set S) =
        f ` set xs \<union> insert (f x) (set S)"
      using Cons.IH [of "f x # S"] by simp
    with False show ?thesis by simp
  qed
qed

lemma dedupe_from_append:
  "dedupe_from S (xs @ ys) f = dedupe_from S xs f @ dedupe_from (map f xs @ S) ys f"
proof (induction xs arbitrary: S)
  case Nil
  show ?case by simp
next
  case (Cons x xs)
  show ?case
  proof (cases "f x \<in> set S")
    case True
    then have "set (map f xs @ S) = set (f x # map f xs @ S)" by auto
    from dedupe_from_cong_set [OF this] True Cons.IH [of S] show ?thesis by simp
  next
    case False
    have "set (map f xs @ f x # S) = set (f x # map f xs @ S)" by auto
    from dedupe_from_cong_set [OF this] False Cons.IH [of "f x # S"] show ?thesis by simp
  qed
qed

lemma dedupe_append_dedupe:
  "dedupe (dedupe xs f @ dedupe ys f) f = dedupe (xs @ ys) f"
proof -
  have "dedupe (dedupe xs f @ dedupe ys f) f =
      dedupe_from [] (dedupe_from [] xs f) f @
      dedupe_from (map f (dedupe_from [] xs f) @ []) (dedupe_from [] ys f) f"
    by (simp add: dedupe_def dedupe_from_append)
  also have "dedupe_from [] (dedupe_from [] xs f) f = dedupe_from [] xs f"
    by (rule dedupe_from_twice) simp
  also have "dedupe_from (map f (dedupe_from [] xs f) @ []) (dedupe_from [] ys f) f =
      dedupe_from (map f (dedupe_from [] xs f) @ []) ys f"
    by (rule dedupe_from_twice) simp
  also have "\<dots> = dedupe_from (map f xs @ []) ys f"
    using dedupe_from_keys [of f "[]" xs] by (intro dedupe_from_cong_set) simp
  finally show ?thesis by (simp add: dedupe_def dedupe_from_append)
qed

lemma dedupe_idem: "dedupe (dedupe xs f) f = dedupe xs f"
  unfolding dedupe_def by (rule dedupe_from_twice) simp

lemma dedupe_from_distinct:
  "distinct (map f (dedupe_from S xs f)) \<and> set (map f (dedupe_from S xs f)) \<inter> set S = {}"
proof (induction xs arbitrary: S)
  case Nil
  show ?case by simp
next
  case (Cons x xs)
  show ?case
  proof (cases "f x \<in> set S")
    case True
    with Cons.IH [of S] show ?thesis by simp
  next
    case False
    with Cons.IH [of "f x # S"] show ?thesis by simp
  qed
qed

lemma dedupe_distinct: "distinct (map f (dedupe xs f))"
  using dedupe_from_distinct [of f "[]" xs] by (simp add: dedupe_def)

section \<open>The parameters of a template\<close>

lemma dedupe_append_cong:
  assumes "dedupe a f = dedupe a' f" and "dedupe b f = dedupe b' f"
  shows "dedupe (a @ b) f = dedupe (a' @ b') f"
proof -
  have "dedupe (a @ b) f = dedupe (dedupe a f @ dedupe b f) f"
    by (simp add: dedupe_append_dedupe)
  also have "\<dots> = dedupe (dedupe a' f @ dedupe b' f) f" by (simp add: assms)
  also have "\<dots> = dedupe (a' @ b') f" by (simp add: dedupe_append_dedupe)
  finally show ?thesis .
qed

lemma dedupe_concat_cong:
  assumes "\<And>x. x \<in> set xs \<Longrightarrow> dedupe (g x) f = dedupe (h x) f"
  shows "dedupe (concat (map g xs)) f = dedupe (concat (map h xs)) f"
  using assms
proof (induction xs)
  case Nil
  show ?case by simp
next
  case (Cons x xs)
  have "dedupe (g x @ concat (map g xs)) f = dedupe (h x @ concat (map h xs)) f"
    by (rule dedupe_append_cong) (simp_all add: Cons)
  then show ?case by simp
qed

lemma foldl_append_concat: "foldl (\<lambda>ps c. ps @ g c) acc xs = acc @ concat (map g xs)"
  by (induction xs arbitrary: acc) simp_all

lemma parameters_parseObject:
  "parameters (parseObject H object ev) =
     dedupe (concat (map (\<lambda>(k, v). parameters (parse H v ev) @ parameters (parseString H k ev))
       object)) key"
proof -
  have "foldl (\<lambda>ps c. ps @ (parameters (valueTemplate c) @ parameters (keyTemplate c))) []
          (map (\<lambda>(k, v). \<lparr>keyTemplate = parseString H k ev, valueTemplate = parse H v ev\<rparr>) object) =
        concat (map (\<lambda>(k, v). parameters (parse H v ev) @ parameters (parseString H k ev)) object)"
    unfolding foldl_append_concat by (simp add: comp_def case_prod_unfold)
  then show ?thesis by (simp add: Template_def Let_def)
qed

lemma parameters_parseArray:
  "parameters (parseArray H array ev) =
     dedupe (concat (map (\<lambda>el. parameters (parse H el ev)) array)) key"
proof -
  have "foldl (\<lambda>ps t. ps @ parameters t) [] (map (\<lambda>el. parse H el ev) array) =
        concat (map (\<lambda>el. parameters (parse H el ev)) array)"
    unfolding foldl_append_concat by (simp add: comp_def)
  then show ?thesis by (simp add: Template_def Let_def)
qed

lemma parameters_parse:
  "parameters (parse H v ev) = dedupe (document_parameters v) key"
proof (induction v)
  case (JStr s)
  show ?case by (simp add: parameters_parseString)
next
  case (JArr array)
  have "dedupe (concat (map (\<lambda>el. parameters (parse H el ev)) array)) key =
      dedupe (concat (map document_parameters array)) key"
    by (rule dedupe_concat_cong) (simp add: JArr dedupe_idem)
  then show ?case by (simp add: parameters_parseArray del: parseArray.simps)
next
  case (JObj object)
  have "dedupe (concat (map (\<lambda>(k, v). parameters (parse H v ev) @ parameters (parseString H k ev))
          object)) key =
      dedupe (concat (map (\<lambda>(k, v). document_parameters v @ map Parameter (str_match k))
          object)) key"
  proof (rule dedupe_concat_cong)
    fix x assume x: "x \<in> set object"
    obtain k w where kw: "x = (k, w)" by (cases x)
    with x have "w \<in> Basic_BNFs.snds x" by simp
    with x have "parameters (parse H w ev) = dedupe (document_parameters w) key"
      by (rule JObj)
    then have "dedupe (parameters (parse H w ev) @ parameters (parseString H k ev)) key =
        dedupe (document_parameters w @ map Parameter (str_match k)) key"
      by (intro dedupe_append_cong) (simp_all add: dedupe_idem parameters_parseString)
    with kw show "dedupe (case x of (k, v) \<Rightarrow>
          parameters (parse H v ev) @ parameters (parseString H k ev)) key =
        dedupe (case x of (k, v) \<Rightarrow> document_parameters v @ map Parameter (str_match k)) key"
      by simp
  qed
  then show ?case by (simp add: parameters_parseObject del: parseObject.simps)
qed (simp_all add: Template_def dedupe_def)

text \<open>
  Claim C7. The parameters of every compiled template are the parameters of the
  template value in document order (for an object the parameters of each value before
  those of its key, key after key; for an array element after element), deduplicated by
  key with the first occurrence kept; so the keys of the list are pairwise distinct, and a
  later parameter with a key already seen is dropped whatever its default.
\<close>

theorem parameters_document_order:
  "parameters (parse H v ev) = dedupe (document_parameters v) key \<and>
   distinct (map key (parameters (parse H v ev)))"
  by (simp add: parameters_parse dedupe_distinct)

theorem parameters_document_order_witness:
  "parameters (parse example_host (JStr ''{{a}}-{{a:def}}'') False) =
     [\<lparr>key = ''a'', defaultValue = None\<rparr>] \<and>
   parameters (parse example_host
       (JArr [JObj [(''{{k}}'', JStr ''{{v:1}} {{k:2}}'')], JStr ''{{y}} {{v}}'']) False) =
     [\<lparr>key = ''v'', defaultValue = Some ''1''\<rparr>, \<lparr>key = ''k'', defaultValue = Some ''2''\<rparr>,
      \<lparr>key = ''y'', defaultValue = None\<rparr>]"
proof -
  have a: "document_parameters (JStr ''{{a}}-{{a:def}}'') =
      [\<lparr>key = ''a'', defaultValue = None\<rparr>, \<lparr>key = ''a'', defaultValue = Some ''def''\<rparr>]"
    by code_simp
  have b: "document_parameters
      (JArr [JObj [(''{{k}}'', JStr ''{{v:1}} {{k:2}}'')], JStr ''{{y}} {{v}}'']) =
      [\<lparr>key = ''v'', defaultValue = Some ''1''\<rparr>, \<lparr>key = ''k'', defaultValue = Some ''2''\<rparr>,
       \<lparr>key = ''k'', defaultValue = None\<rparr>, \<lparr>key = ''y'', defaultValue = None\<rparr>,
       \<lparr>key = ''v'', defaultValue = None\<rparr>]"
    by code_simp
  from a b
    parameters_document_order [of example_host "JStr ''{{a}}-{{a:def}}''" False]
    parameters_document_order [of example_host
      "JArr [JObj [(''{{k}}'', JStr ''{{v:1}} {{k:2}}'')], JStr ''{{y}} {{v}}'']" False]
  show ?thesis by (simp add: dedupe_def)
qed

section \<open>Values without placeholders\<close>

lemma assign_fresh: "k \<notin> fst ` set props \<Longrightarrow> assign props k v = props @ [(k, v)]"
  by (induction props) auto

lemma reduce_object_rebuild:
  assumes "\<And>k v. (k, v) \<in> set object \<Longrightarrow>
      str_match k = [] \<and> k \<noteq> ''__proto__'' \<and> fn (parse H v ev) context = Inr v"
    and "distinct (map fst pre @ map fst object)"
  shows "reduce (object_reducer H context)
      (map (\<lambda>(k, v). \<lparr>keyTemplate = parseString H k ev, valueTemplate = parse H v ev\<rparr>) object)
      i (pre, False) = Inr (pre @ object, False)"
  using assms
proof (induction object arbitrary: pre i)
  case Nil
  show ?case by simp
next
  case (Cons kv object)
  obtain k v where kv: "kv = (k, v)" by (cases kv)
  from Cons.prems(1) [of k v] kv
  have k: "str_match k = []" "k \<noteq> ''__proto__''" and v: "fn (parse H v ev) context = Inr v"
    by simp_all
  from Cons.prems(2) kv have fresh: "k \<notin> fst ` set pre" by auto
  have step: "object_reducer H context (pre, False)
      \<lparr>keyTemplate = parseString H k ev, valueTemplate = parse H v ev\<rparr> i =
      Inr (pre @ [(k, v)], False)"
    using k v fresh
    by (simp add: object_reducer_def fn_parseString set_property_def assign_fresh)
  have "reduce (object_reducer H context)
      (map (\<lambda>(k, v). \<lparr>keyTemplate = parseString H k ev, valueTemplate = parse H v ev\<rparr>) object)
      (Suc i) (pre @ [(k, v)], False) = Inr ((pre @ [(k, v)]) @ object, False)"
  proof (rule Cons.IH)
    show "distinct (map fst (pre @ [(k, v)]) @ map fst object)"
      using Cons.prems(2) kv by simp
  next
    fix k' v' assume "(k', v') \<in> set object"
    then show "str_match k' = [] \<and> k' \<noteq> ''__proto__'' \<and> fn (parse H v' ev) context = Inr v'"
      using Cons.prems(1) [of k' v'] by simp
  qed
  with step kv show ?case by simp
qed

lemma map_result_rebuild:
  "(\<And>x. x \<in> set xs \<Longrightarrow> f (g x) = Inr x) \<Longrightarrow> map_result f (map g xs) = Inr xs"
  by (induction xs) simp_all

lemma document_parameters_none: "no_placeholder v \<Longrightarrow> document_parameters v = []"
proof (induction v)
  case (JObj object)
  have "(case x of (k, w) \<Rightarrow> document_parameters w @ map Parameter (str_match k)) = []"
    if x: "x \<in> set object" for x
  proof -
    obtain k w where kw: "x = (k, w)" by (cases x)
    with x JObj.prems have "str_match k = []" "no_placeholder w" by auto
    moreover from kw x have "w \<in> Basic_BNFs.snds x" by simp
    ultimately show ?thesis using JObj.IH [OF x] kw by simp
  qed
  then show ?case by simp
qed simp_all

lemma fn_parseArray:
  "fn (parseArray H array ev) context =
     (case map_result (\<lambda>t. fn t context) (map (\<lambda>el. parse H el ev) array) of
        Inl e \<Rightarrow> Inl e
      | Inr vs \<Rightarrow> Inr (JArr vs))"
  by (simp add: Template_def Let_def)

lemma fn_parseObject:
  "fn (parseObject H object ev) context =
     (case reduce (object_reducer H context)
        (map (\<lambda>(k, v). \<lparr>keyTemplate = parseString H k ev, valueTemplate = parse H v ev\<rparr>)
          object) 0 ([], False) of
        Inl e \<Rightarrow> Inl e
      | Inr (props, _) \<Rightarrow> Inr (JObj props))"
  by (simp add: Template_def Let_def)

lemma fn_parse_rebuild:
  assumes "distinct_keys v" and "no_placeholder v" and "no_proto_key v"
  shows "fn (parse H v ev) context = Inr v"
  using assms
proof (induction v)
  case (JStr s)
  then show ?case by (simp add: fn_parseString)
next
  case (JArr array)
  have "map_result (\<lambda>t. fn t context) (map (\<lambda>el. parse H el ev) array) = Inr array"
    by (rule map_result_rebuild) (use JArr in simp)
  then show ?case by (simp add: fn_parseArray del: parseArray.simps)
next
  case (JObj object)
  have "reduce (object_reducer H context)
      (map (\<lambda>(k, v). \<lparr>keyTemplate = parseString H k ev, valueTemplate = parse H v ev\<rparr>) object)
      0 ([], False) = Inr ([] @ object, False)"
  proof (rule reduce_object_rebuild)
    show "distinct (map fst [] @ map fst object)" using JObj.prems by simp
  next
    fix k w assume kw: "(k, w) \<in> set object"
    then have "w \<in> Basic_BNFs.snds (k, w)" by simp
    with kw have "fn (parse H w ev) context = Inr w"
      using JObj.prems by (intro JObj.IH [of "(k, w)" w]) auto
    with kw JObj.prems
    show "str_match k = [] \<and> k \<noteq> ''__proto__'' \<and> fn (parse H w ev) context = Inr w"
      by auto
  qed
  then show ?case by (simp add: fn_parseObject del: parseObject.simps)
qed (simp_all add: Template_def)

text \<open>
  Claim C1, as amended. For every well-formed value without placeholder syntax in any
  string leaf or object key, and without an object key named \<^verbatim>\<open>__proto__\<close>, the
  compiled template has no parameters and returns, for every context and either setting
  of \<^verbatim>\<open>evalDefaults\<close>, the value itself: strings as they are, objects and arrays
  rebuilt with the same keys and elements in the same order, everything else unchanged.
\<close>

theorem parse_without_placeholder:
  assumes "distinct_keys v" and "no_placeholder v" and "no_proto_key v"
  shows "parameters (parse H v ev) = [] \<and> fn (parse H v ev) context = Inr v"
  using assms
  by (simp add: parameters_parse document_parameters_none dedupe_def fn_parse_rebuild)

theorem parse_without_placeholder_witness:
  "distinct_keys (JObj [(''name'', JStr ''x { y }''), (''list'', JArr [JNum 1, JNull, JBool True]),
     (''when'', JDate 0)]) \<and>
   no_placeholder (JObj [(''name'', JStr ''x { y }''), (''list'', JArr [JNum 1, JNull, JBool True]),
     (''when'', JDate 0)]) \<and>
   no_proto_key (JObj [(''name'', JStr ''x { y }''), (''list'', JArr [JNum 1, JNull, JBool True]),
     (''when'', JDate 0)]) \<and>
   parameters (parse example_host (JObj [(''name'', JStr ''x { y }''),
     (''list'', JArr [JNum 1, JNull, JBool True]), (''when'', JDate 0)]) True) = [] \<and>
   fn (parse example_host (JObj [(''name'', JStr ''x { y }''),
     (''list'', JArr [JNum 1, JNull, JBool True]), (''when'', JDate 0)]) True) (JNum 7) =
     Inr (JObj [(''name'', JStr ''x { y }''), (''list'', JArr [JNum 1, JNull, JBool True]),
       (''when'', JDate 0)])"
proof -
  let ?v = "JObj [(''name'', JStr ''x { y }''), (''list'', JArr [JNum 1, JNull, JBool True]),
     (''when'', JDate 0)]"
  have d: "distinct_keys ?v" by simp
  have n: "no_placeholder ?v" by code_simp
  have p: "no_proto_key ?v" by simp
  from parse_without_placeholder [OF d n p, of example_host True "JNum 7"] d n p
  show ?thesis by simp
qed

text \<open>
  The claim as the specification states it covers every JSON-compatible value. The
  object that \<^verbatim>\<open>JSON.parse('{"__proto__": 1}')\<close> returns has no placeholder, and its
  template returns an object without properties.
\<close>

theorem parse_proto_key_lost:
  "distinct_keys (JObj [(''__proto__'', JNum 1)]) \<and>
   no_placeholder (JObj [(''__proto__'', JNum 1)]) \<and>
   fn (parse example_host (JObj [(''__proto__'', JNum 1)]) False) (JObj []) = Inr (JObj []) \<and>
   fn (parse example_host (JObj [(''__proto__'', JNum 1)]) False) (JObj []) \<noteq>
     Inr (JObj [(''__proto__'', JNum 1)])"
  by code_simp

section \<open>Strings: replacement and the single placeholder\<close>

lemma split_first_Some: "split_first p s = Some (b, a) \<Longrightarrow> s = b @ p @ a"
proof (induction s arbitrary: b)
  case Nil
  then show ?case by (simp split: if_splits)
next
  case (Cons c cs)
  show ?case
  proof (cases "startsWith (c # cs) p")
    case True
    with Cons.prems have "b = []" "a = drop (length p) (c # cs)" by simp_all
    moreover from True have "take (length p) (c # cs) = p" by (simp add: startsWith_def)
    ultimately show ?thesis by (metis append_Nil append_take_drop_id)
  next
    case False
    with Cons.prems obtain b' where "split_first p cs = Some (b', a)" "b = c # b'"
      by auto
    with Cons.IH [of b'] show ?thesis by simp
  qed
qed

lemma split_first_occurs: "\<exists>b' a'. split_first p (b @ p @ a) = Some (b', a')"
proof (induction b)
  case Nil
  show ?case
  proof (cases "p @ a")
    case Nil
    then show ?thesis by simp
  next
    case (Cons c cs)
    have "startsWith (p @ a) p" by (simp add: startsWith_def)
    with Cons show ?thesis by simp
  qed
next
  case (Cons c b)
  then show ?case by (cases "startsWith (c # b @ p @ a) p") auto
qed

lemma match_here_prefix: "match_here t = Some m \<Longrightarrow> \<exists>rest. t = m @ rest"
  using match_here_form [of t m] by blast

lemma scan_substring: "m \<in> set (scan k s) \<Longrightarrow> \<exists>b a. s = b @ m @ a"
proof (induction k s rule: scan.induct)
  case (1 k)
  then show ?case by simp
next
  case (2 k c cs)
  then obtain b a where "cs = b @ m @ a" by auto
  then have "c # cs = (c # b) @ m @ a" by simp
  then show ?case by blast
next
  case (3 c cs)
  show ?case
  proof (cases "match_here (c # cs)")
    case None
    with 3 obtain b a where "cs = b @ m @ a" by auto
    then have "c # cs = (c # b) @ m @ a" by simp
    then show ?thesis by blast
  next
    case (Some m')
    show ?thesis
    proof (cases "m = m'")
      case True
      with Some match_here_prefix [of "c # cs" m'] obtain rest where "c # cs = [] @ m @ rest"
        by auto
      then show ?thesis by blast
    next
      case False
      with 3 Some obtain b a where "cs = b @ m @ a" by auto
      then have "c # cs = (c # b) @ m @ a" by simp
      then show ?thesis by blast
    qed
  qed
qed

lemma str_match_split:
  assumes "m \<in> set (str_match s)"
  shows "\<exists>b a. split_first m s = Some (b, a) \<and> s = b @ m @ a"
proof -
  from assms obtain b a where "s = b @ m @ a"
    unfolding str_match_def by (blast dest: scan_substring)
  with split_first_occurs [of m b a] obtain b' a' where "split_first m s = Some (b', a')"
    by auto
  with split_first_Some [OF this] show ?thesis by blast
qed

lemma get_substitution_plain: "CHR ''$'' \<notin> set r \<Longrightarrow> get_substitution m b a r = r"
  by (induction m b a r rule: get_substitution.induct) auto

lemma string_replace_plain:
  "split_first m s = Some (b, a) \<Longrightarrow> CHR ''$'' \<notin> set t \<Longrightarrow>
   string_replace s m t = b @ t @ a"
  by (simp add: string_replace_def get_substitution_plain)

lemma js_replace_primitive:
  assumes "typeof v \<in> {''boolean'', ''number'', ''string''}" and "to_string H v = Inr t"
  shows "js_replace H (JStr s) m v = Inr (JStr (string_replace s m t))"
  using assms by (cases v) (auto simp: js_replace_def)

lemma fn_parse_single:
  assumes "str_match s = [m]"
  shows "fn (parseString H s ev) context =
     (case call_if_function (lookup_value H ev (context_or_empty context) (Parameter m)) of
        Inl e \<Rightarrow> Inl e
      | Inr v \<Rightarrow> substitute H 1 (JStr s) m v)"
  using assms by (simp add: fn_parseString split: sum.splits)

section \<open>Defaults and missing paths\<close>

lemma lookup_value_missing:
  assumes "objectPath_get H c (key p) = JUndefined \<or> objectPath_get H c (key p) = JNull"
  shows "lookup_value H ev c p =
     (if ev then (case safeEval H (default_source p) c of Inr w \<Rightarrow> w | Inl e \<Rightarrow> default_source p)
      else default_source p)"
  using assms by (auto simp: lookup_value_def Let_def)

lemma substitute_string_accumulator:
  "\<exists>r. substitute H n (JStr a) m (JStr d) = Inr r"
  by (auto simp: substitute_def whole_string_def js_replace_def split: bool.splits)

text \<open>
  Claim C3. When the path lookup yields \<^verbatim>\<open>undefined\<close> or \<^verbatim>\<open>null\<close> and the
  placeholder has a default, the default is used: without \<^verbatim>\<open>evalDefaults\<close> as the
  string it is, with \<^verbatim>\<open>evalDefaults\<close> as what the evaluator returns for it in the
  context, and as the string it is when the evaluator throws, so that rendering gives
  what it gives without \<^verbatim>\<open>evalDefaults\<close>. For a string that is one placeholder from
  its first to its last character, rendering returns that value.
\<close>

theorem default_value_used:
  assumes "str_match s = [m]"
    and "Parameter m = \<lparr>key = k, defaultValue = Some d\<rparr>"
    and "objectPath_get H (context_or_empty context) k = JUndefined \<or>
         objectPath_get H (context_or_empty context) k = JNull"
  shows "lookup_value H False (context_or_empty context) (Parameter m) = JStr d \<and>
         lookup_value H True (context_or_empty context) (Parameter m) =
           (case safeEval H (JStr d) (context_or_empty context) of
              Inr w \<Rightarrow> w
            | Inl e \<Rightarrow> JStr d) \<and>
         ((\<exists>e. safeEval H (JStr d) (context_or_empty context) = Inl e) \<longrightarrow>
            fn (parse H (JStr s) True) context = fn (parse H (JStr s) False) context) \<and>
         (startsWith s ''{{'' \<and> endsWith s ''}}'' \<longrightarrow>
            fn (parse H (JStr s) False) context = Inr (JStr d) \<and>
            (\<forall>w. safeEval H (JStr d) (context_or_empty context) = Inr w \<and>
                 typeof w \<noteq> ''function'' \<longrightarrow>
                 fn (parse H (JStr s) True) context =
                   Inr (if w = JUndefined then JNull else w)))"
proof -
  let ?c = "context_or_empty context"
  have src: "default_source (Parameter m) = JStr d"
    by (simp add: assms(2) default_source_def)
  have missing: "objectPath_get H ?c (key (Parameter m)) = JUndefined \<or>
      objectPath_get H ?c (key (Parameter m)) = JNull"
    using assms(3) by (simp add: assms(2))
  have raw: "lookup_value H False ?c (Parameter m) = JStr d"
    using lookup_value_missing [OF missing, of False] by (simp add: src)
  have evaluated: "lookup_value H True ?c (Parameter m) =
      (case safeEval H (JStr d) ?c of Inr w \<Rightarrow> w | Inl e \<Rightarrow> JStr d)"
    using lookup_value_missing [OF missing, of True] by (simp add: src split: sum.splits)
  have swallowed: "fn (parse H (JStr s) True) context = fn (parse H (JStr s) False) context"
    if "\<exists>e. safeEval H (JStr d) ?c = Inl e"
  proof -
    from that evaluated raw
    have "lookup_value H True ?c (Parameter m) = lookup_value H False ?c (Parameter m)"
      by auto
    then show ?thesis by (simp add: fn_parse_single [OF assms(1)])
  qed
  have whole: "fn (parse H (JStr s) False) context = Inr (JStr d) \<and>
      (\<forall>w. safeEval H (JStr d) ?c = Inr w \<and> typeof w \<noteq> ''function'' \<longrightarrow>
         fn (parse H (JStr s) True) context = Inr (if w = JUndefined then JNull else w))"
    if "startsWith s ''{{'' \<and> endsWith s ''}}''"
  proof -
    from that have w: "whole_string 1 (JStr s) = Inr True" by (simp add: whole_string_def)
    have a: "fn (parse H (JStr s) False) context = Inr (JStr d)"
      using w by (simp add: fn_parse_single [OF assms(1)] raw call_if_function_def substitute_def)
    have b: "fn (parse H (JStr s) True) context = Inr (if x = JUndefined then JNull else x)"
      if x: "safeEval H (JStr d) ?c = Inr x \<and> typeof x \<noteq> ''function''" for x
      using w x
      by (cases x)
        (simp_all add: fn_parse_single [OF assms(1)] evaluated call_if_function_def substitute_def)
    from a b show ?thesis by blast
  qed
  from raw evaluated swallowed whole show ?thesis by blast
qed

lemma get_missing: "objectPath_get example_host (JObj []) ''a'' = JUndefined"
  by (simp add: example_host_def path_get_def segments_def)

theorem default_value_used_witness:
  "fn (parse example_host (JStr ''{{a:1+1}}'') False) (JObj []) = Inr (JStr ''1+1'') \<and>
   fn (parse example_host (JStr ''{{a:1+1}}'') True) (JObj []) = Inr (JNum 2) \<and>
   fn (parse example_host (JStr ''{{a:hello}}'') False) (JObj []) = Inr (JStr ''hello'') \<and>
   fn (parse example_host (JStr ''{{a:1+}}'') True) (JObj []) = Inr (JStr ''1+'')"
proof -
  have c: "context_or_empty (JObj []) = JObj []" by (simp add: context_or_empty_def)
  have m1: "str_match ''{{a:1+1}}'' = [''{{a:1+1}}'']" by code_simp
  have p1: "Parameter ''{{a:1+1}}'' = \<lparr>key = ''a'', defaultValue = Some ''1+1''\<rparr>" by code_simp
  have m2: "str_match ''{{a:hello}}'' = [''{{a:hello}}'']" by code_simp
  have p2: "Parameter ''{{a:hello}}'' = \<lparr>key = ''a'', defaultValue = Some ''hello''\<rparr>"
    by code_simp
  have m3: "str_match ''{{a:1+}}'' = [''{{a:1+}}'']" by code_simp
  have p3: "Parameter ''{{a:1+}}'' = \<lparr>key = ''a'', defaultValue = Some ''1+''\<rparr>" by code_simp
  have g: "objectPath_get example_host (context_or_empty (JObj [])) ''a'' = JUndefined \<or>
      objectPath_get example_host (context_or_empty (JObj [])) ''a'' = JNull"
    by (simp add: c get_missing)
  have w1: "startsWith ''{{a:1+1}}'' ''{{'' \<and> endsWith ''{{a:1+1}}'' ''}}''"
    by (simp add: startsWith_def endsWith_def)
  have w2: "startsWith ''{{a:hello}}'' ''{{'' \<and> endsWith ''{{a:hello}}'' ''}}''"
    by (simp add: startsWith_def endsWith_def)
  have w3: "startsWith ''{{a:1+}}'' ''{{'' \<and> endsWith ''{{a:1+}}'' ''}}''"
    by (simp add: startsWith_def endsWith_def)
  have e1: "safeEval example_host (JStr ''1+1'') (context_or_empty (JObj [])) = Inr (JNum 2)"
    by (simp add: example_host_def)
  have e3: "safeEval example_host (JStr ''1+'') (context_or_empty (JObj [])) =
      Inl (Thrown ''SyntaxError'')"
    by (simp add: example_host_def)
  from default_value_used [OF m1 p1 g] w1 e1
  have r1: "fn (parse example_host (JStr ''{{a:1+1}}'') False) (JObj []) = Inr (JStr ''1+1'')"
    and r2: "fn (parse example_host (JStr ''{{a:1+1}}'') True) (JObj []) = Inr (JNum 2)"
    by simp_all
  from default_value_used [OF m2 p2 g] w2
  have r3: "fn (parse example_host (JStr ''{{a:hello}}'') False) (JObj []) = Inr (JStr ''hello'')"
    by simp
  from default_value_used [OF m3 p3 g] w3 e3
  have r4: "fn (parse example_host (JStr ''{{a:1+}}'') True) (JObj []) = Inr (JStr ''1+'')"
    by simp
  from r1 r2 r3 r4 show ?thesis by simp
qed

text \<open>
  Claim C5. When the path of a placeholder is missing, the callback of the reduction
  does not fail for that. Without a default it returns \<^verbatim>\<open>null\<close>, whatever the
  accumulator (with \<^verbatim>\<open>evalDefaults\<close> this needs an evaluator that throws on a missing
  source, or returns \<^verbatim>\<open>undefined\<close> or \<^verbatim>\<open>null\<close> for it). With a default, the value
  is the default, as it is or evaluated, and with the default as it is the callback
  returns a value for every accumulator that is a string.
\<close>

theorem missing_path:
  assumes "objectPath_get H c (key (params ! i)) = JUndefined"
  shows "(defaultValue (params ! i) = None \<and>
          (\<not> ev \<or> (\<exists>e. safeEval H JUndefined c = Inl e) \<or>
           safeEval H JUndefined c = Inr JUndefined \<or> safeEval H JUndefined c = Inr JNull) \<longrightarrow>
            reducer H ev ms params c acc m i = Inr JNull) \<and>
         (\<forall>d. defaultValue (params ! i) = Some d \<longrightarrow>
            lookup_value H ev c (params ! i) =
              (if ev then (case safeEval H (JStr d) c of Inr w \<Rightarrow> w | Inl e \<Rightarrow> JStr d)
               else JStr d) \<and>
            (\<not> ev \<or> (\<exists>e. safeEval H (JStr d) c = Inl e) \<longrightarrow>
               (\<exists>r. reducer H ev ms params c (JStr a) m i = Inr r)))"
proof -
  let ?p = "params ! i"
  from assms have missing: "objectPath_get H c (key ?p) = JUndefined \<or>
      objectPath_get H c (key ?p) = JNull" by simp
  note looked_up = lookup_value_missing [OF missing, of ev]
  have none: "reducer H ev ms params c acc m i = Inr JNull"
    if "defaultValue ?p = None" and "\<not> ev \<or> (\<exists>e. safeEval H JUndefined c = Inl e) \<or>
      safeEval H JUndefined c = Inr JUndefined \<or> safeEval H JUndefined c = Inr JNull"
  proof -
    from that(1) have "default_source ?p = JUndefined" by (simp add: default_source_def)
    with looked_up that(2) have "lookup_value H ev c ?p = JUndefined \<or> lookup_value H ev c ?p = JNull"
      by (auto split: if_splits)
    then show ?thesis
      by (auto simp: reducer_def Let_def call_if_function_def substitute_def)
  qed
  have some: "lookup_value H ev c ?p =
        (if ev then (case safeEval H (JStr d) c of Inr w \<Rightarrow> w | Inl e \<Rightarrow> JStr d) else JStr d) \<and>
      (\<not> ev \<or> (\<exists>e. safeEval H (JStr d) c = Inl e) \<longrightarrow>
        (\<exists>r. reducer H ev ms params c (JStr a) m i = Inr r))"
    if "defaultValue ?p = Some d" for d
  proof -
    from that have src: "default_source ?p = JStr d" by (simp add: default_source_def)
    have v: "lookup_value H ev c ?p =
        (if ev then (case safeEval H (JStr d) c of Inr w \<Rightarrow> w | Inl e \<Rightarrow> JStr d) else JStr d)"
      using looked_up by (simp add: src split: sum.splits)
    have "\<exists>r. reducer H ev ms params c (JStr a) m i = Inr r"
      if "\<not> ev \<or> (\<exists>e. safeEval H (JStr d) c = Inl e)"
    proof -
      from that v have "lookup_value H ev c ?p = JStr d" by auto
      then show ?thesis
        using substitute_string_accumulator [of H "length ms" a m d]
        by (simp add: reducer_def Let_def call_if_function_def)
    qed
    with v show ?thesis by blast
  qed
  from none some show ?thesis by blast
qed

theorem missing_path_witness:
  "reducer example_host False [''{{a}}'', ''{{b}}''] (map Parameter [''{{a}}'', ''{{b}}'']) (JObj [])
     (JStr ''{{a}} {{b}}'') ''{{a}}'' 0 = Inr JNull \<and>
   fn (parse example_host (JStr ''{{a}}'') False) (JObj []) = Inr JNull \<and>
   fn (parse example_host (JStr ''x {{a:d}} y'') False) (JObj []) = Inr (JStr ''x d y'')"
proof -
  have p: "map Parameter [''{{a}}'', ''{{b}}''] ! 0 = \<lparr>key = ''a'', defaultValue = None\<rparr>"
    by code_simp
  have g: "objectPath_get example_host (JObj []) (key (map Parameter [''{{a}}'', ''{{b}}''] ! 0)) =
      JUndefined"
    by (simp only: p parameter.simps get_missing)
  from missing_path [OF g, of False "[''{{a}}'', ''{{b}}'']" "JStr ''{{a}} {{b}}''" "''{{a}}''"] p
  have "reducer example_host False [''{{a}}'', ''{{b}}''] (map Parameter [''{{a}}'', ''{{b}}''])
      (JObj []) (JStr ''{{a}} {{b}}'') ''{{a}}'' 0 = Inr JNull"
    by simp
  moreover have "fn (parse example_host (JStr ''{{a}}'') False) (JObj []) = Inr JNull"
    by code_simp
  moreover have "fn (parse example_host (JStr ''x {{a:d}} y'') False) (JObj []) =
      Inr (JStr ''x d y'')"
    by code_simp
  ultimately show ?thesis by simp
qed

section \<open>Strings with several placeholders\<close>

lemma steps_append:
  "steps H ev n c (xs @ ys) acc =
     (case steps H ev n c xs acc of Inl e \<Rightarrow> Inl e | Inr a \<Rightarrow> steps H ev n c ys a)"
  by (induction xs arbitrary: acc) (simp_all split: sum.splits)

lemma fn_parseString_matches:
  "str_match s \<noteq> [] \<Longrightarrow>
   fn (parseString H s ev) context =
     steps H ev (length (str_match s)) (context_or_empty context) (str_match s) (JStr s)"
  by (simp add: fn_parseString)

lemma substitute_object: "typeof v = ''object'' \<Longrightarrow> substitute H n acc m v = Inr v"
  by (simp add: substitute_def)

text \<open>
  Claim C4, as amended. When the resolved value of the last placeholder of a string
  (after default and call) has object type, arrays and \<^verbatim>\<open>null\<close> included, and the
  placeholders before it have not made the reduction throw, rendering returns that value
  as the entire result, whatever the accumulator was: the literal text and what the
  earlier placeholders produced are discarded. In particular, with one placeholder the
  result is the object.
\<close>

theorem object_value_last:
  assumes "str_match s = ms @ [m]"
    and "call_if_function (lookup_value H ev (context_or_empty context) (Parameter m)) = Inr v"
    and "typeof v = ''object''"
  shows "fn (parse H (JStr s) ev) context =
           (case steps H ev (length (ms @ [m])) (context_or_empty context) ms (JStr s) of
              Inl e \<Rightarrow> Inl e
            | Inr acc \<Rightarrow> Inr v) \<and>
         (ms = [] \<longrightarrow> fn (parse H (JStr s) ev) context = Inr v)"
proof -
  let ?c = "context_or_empty context" and ?n = "length (ms @ [m])"
  have last: "steps H ev ?n ?c [m] acc = Inr v" for acc
    using assms(2) substitute_object [OF assms(3), of H ?n acc m] by simp
  from assms(1) have "str_match s \<noteq> []" by simp
  then have "fn (parse H (JStr s) ev) context = steps H ev ?n ?c (ms @ [m]) (JStr s)"
    by (simp add: fn_parseString_matches assms(1))
  also have "\<dots> = (case steps H ev ?n ?c ms (JStr s) of Inl e \<Rightarrow> Inl e | Inr acc \<Rightarrow> Inr v)"
    unfolding steps_append using last by (simp split: sum.splits)
  finally have whole: "fn (parse H (JStr s) ev) context =
      (case steps H ev ?n ?c ms (JStr s) of Inl e \<Rightarrow> Inl e | Inr acc \<Rightarrow> Inr v)" .
  then have "ms = [] \<longrightarrow> fn (parse H (JStr s) ev) context = Inr v" by simp
  with whole show ?thesis by blast
qed

lemma get_obj:
  "objectPath_get example_host (JObj [(''obj'', JObj [(''n'', JNum 1)])]) ''obj'' =
     JObj [(''n'', JNum 1)]"
  by (simp add: example_host_def path_get_def segments_def)

theorem object_value_last_witness:
  "fn (parse example_host (JStr ''{{obj}}'') False) (JObj [(''obj'', JObj [(''n'', JNum 1)])]) =
     Inr (JObj [(''n'', JNum 1)]) \<and>
   fn (parse example_host (JStr ''a {{x:1}} b {{obj}} c'') False)
     (JObj [(''obj'', JObj [(''n'', JNum 1)])]) = Inr (JObj [(''n'', JNum 1)])"
proof -
  let ?c = "JObj [(''obj'', JObj [(''n'', JNum 1)])]"
  have c: "context_or_empty ?c = ?c" by (simp add: context_or_empty_def)
  have m1: "str_match ''{{obj}}'' = [] @ [''{{obj}}'']" by code_simp
  have m2: "str_match ''a {{x:1}} b {{obj}} c'' = [''{{x:1}}''] @ [''{{obj}}'']" by code_simp
  have p: "Parameter ''{{obj}}'' = \<lparr>key = ''obj'', defaultValue = None\<rparr>" by code_simp
  have v: "call_if_function (lookup_value example_host False (context_or_empty ?c)
      (Parameter ''{{obj}}'')) = Inr (JObj [(''n'', JNum 1)])"
    by (simp add: c p lookup_value_def call_if_function_def get_obj)
  have t: "typeof (JObj [(''n'', JNum 1)]) = ''object''" by simp
  have pre: "steps example_host False (length ([''{{x:1}}''] @ [''{{obj}}'']))
      (context_or_empty ?c) [''{{x:1}}''] (JStr ''a {{x:1}} b {{obj}} c'') =
      Inr (JStr ''a 1 b {{obj}} c'')"
    by code_simp
  from object_value_last [OF m1 v t]
  have r1: "fn (parse example_host (JStr ''{{obj}}'') False) ?c = Inr (JObj [(''n'', JNum 1)])"
    by simp
  from object_value_last [OF m2 v t] pre
  have r2: "fn (parse example_host (JStr ''a {{x:1}} b {{obj}} c'') False) ?c =
      Inr (JObj [(''n'', JNum 1)])"
    by simp
  from r1 r2 show ?thesis by simp
qed

text \<open>
  The claim as the specification states it lets the object end the reduction at once.
  The reduction goes on: a later placeholder with a number finds the object as its
  accumulator, which has no method \<^verbatim>\<open>replace\<close>, and a later placeholder without a
  value replaces the object by \<^verbatim>\<open>null\<close>.
\<close>

theorem object_value_not_final:
  "fn (parse example_host (JStr ''{{obj}} {{b}}'') False)
     (JObj [(''obj'', JObj [(''n'', JNum 1)]), (''b'', JNum 5)]) = Inl TypeError \<and>
   fn (parse example_host (JStr ''{{obj}} {{b}}'') False)
     (JObj [(''obj'', JObj [(''n'', JNum 1)])]) = Inr JNull \<and>
   fn (parse example_host (JStr ''{{obj}} {{b}}'') False)
     (JObj [(''obj'', JObj [(''n'', JNum 1)])]) \<noteq> Inr (JObj [(''n'', JNum 1)])"
  by code_simp

lemma substitute_missing:
  "v = JUndefined \<or> v = JNull \<Longrightarrow> substitute H n acc m v = Inr JNull"
  by (auto simp: substitute_def)

lemma steps_all_missing:
  assumes "\<forall>m \<in> set ms. call_if_function (lookup_value H ev c (Parameter m)) = Inr JUndefined \<or>
      call_if_function (lookup_value H ev c (Parameter m)) = Inr JNull"
  shows "steps H ev n c ms JNull = Inr JNull"
  using assms
proof (induction ms)
  case Nil
  show ?case by simp
next
  case (Cons m ms)
  then have "call_if_function (lookup_value H ev c (Parameter m)) = Inr JUndefined \<or>
      call_if_function (lookup_value H ev c (Parameter m)) = Inr JNull" by simp
  moreover from Cons have "steps H ev n c ms JNull = Inr JNull" by simp
  ultimately show ?case by (auto simp: substitute_missing)
qed

lemma substitute_on_null:
  assumes "typeof v \<noteq> ''object''" and "v \<noteq> JUndefined" and "n \<noteq> 1"
  shows "substitute H n JNull m v = Inl TypeError"
  using assms by (cases v) (simp_all add: substitute_def whole_string_def js_replace_def)

text \<open>
  Claim C10. Rendering a string with two or more placeholders throws a
  \<^verbatim>\<open>TypeError\<close> when the placeholders before some placeholder do not throw, that
  placeholder resolves (after default and call) to \<^verbatim>\<open>undefined\<close> or \<^verbatim>\<open>null\<close>, so
  that the accumulator becomes \<^verbatim>\<open>null\<close>, the placeholders after it resolve to
  \<^verbatim>\<open>undefined\<close> or \<^verbatim>\<open>null\<close> as well until one resolves to a value that is no
  object and not \<^verbatim>\<open>undefined\<close>: \<^verbatim>\<open>replace\<close> is then called on \<^verbatim>\<open>null\<close>.
\<close>

theorem null_accumulator_throws:
  assumes "str_match s = pre @ m1 # mid @ m2 # post"
    and "steps H ev (length (str_match s)) (context_or_empty context) pre (JStr s) = Inr acc"
    and "call_if_function (lookup_value H ev (context_or_empty context) (Parameter m1)) =
           Inr JUndefined \<or>
         call_if_function (lookup_value H ev (context_or_empty context) (Parameter m1)) =
           Inr JNull"
    and "\<forall>m \<in> set mid.
           call_if_function (lookup_value H ev (context_or_empty context) (Parameter m)) =
             Inr JUndefined \<or>
           call_if_function (lookup_value H ev (context_or_empty context) (Parameter m)) =
             Inr JNull"
    and "call_if_function (lookup_value H ev (context_or_empty context) (Parameter m2)) = Inr v"
    and "typeof v \<noteq> ''object''" and "v \<noteq> JUndefined"
  shows "fn (parse H (JStr s) ev) context = Inl TypeError"
proof -
  let ?c = "context_or_empty context" and ?n = "length (str_match s)"
  from assms(1) have n: "?n \<noteq> 1" by simp
  have first: "steps H ev ?n ?c [m1] acc = Inr JNull"
    using assms(3) by (auto simp: substitute_missing)
  have between: "steps H ev ?n ?c mid JNull = Inr JNull"
    using assms(4) by (rule steps_all_missing)
  have second: "steps H ev ?n ?c (m2 # post) JNull = Inl TypeError"
    using assms(5) substitute_on_null [OF assms(6) assms(7) n, of H m2] by simp
  have "steps H ev ?n ?c (pre @ [m1] @ mid @ m2 # post) (JStr s) = Inl TypeError"
    unfolding steps_append using assms(2) first between second by simp
  moreover from assms(1) have "str_match s \<noteq> []" by simp
  ultimately show ?thesis
    using assms(1) by (simp add: fn_parseString_matches)
qed

lemma get_b:
  "objectPath_get example_host (JObj [(''b'', JNum 5)]) ''a'' = JUndefined"
  "objectPath_get example_host (JObj [(''b'', JNum 5)]) ''b'' = JNum 5"
  by (simp_all add: example_host_def path_get_def segments_def)

theorem null_accumulator_throws_witness:
  "fn (parse example_host (JStr ''{{a}} {{b}}'') False) (JObj [(''b'', JNum 5)]) = Inl TypeError"
proof -
  let ?c = "JObj [(''b'', JNum 5)]"
  have c: "context_or_empty ?c = ?c" by (simp add: context_or_empty_def)
  have m: "str_match ''{{a}} {{b}}'' = [] @ ''{{a}}'' # [] @ ''{{b}}'' # []" by code_simp
  have pa: "Parameter ''{{a}}'' = \<lparr>key = ''a'', defaultValue = None\<rparr>" by code_simp
  have pb: "Parameter ''{{b}}'' = \<lparr>key = ''b'', defaultValue = None\<rparr>" by code_simp
  have pre: "steps example_host False (length (str_match ''{{a}} {{b}}'')) (context_or_empty ?c) []
      (JStr ''{{a}} {{b}}'') = Inr (JStr ''{{a}} {{b}}'')"
    by simp
  have a: "call_if_function (lookup_value example_host False (context_or_empty ?c)
        (Parameter ''{{a}}'')) = Inr JUndefined \<or>
      call_if_function (lookup_value example_host False (context_or_empty ?c)
        (Parameter ''{{a}}'')) = Inr JNull"
    by (simp add: c pa lookup_value_def call_if_function_def get_b default_source_def)
  have mid: "\<forall>m \<in> set [].
      call_if_function (lookup_value example_host False (context_or_empty ?c) (Parameter m)) =
        Inr JUndefined \<or>
      call_if_function (lookup_value example_host False (context_or_empty ?c) (Parameter m)) =
        Inr JNull"
    by simp
  have b: "call_if_function (lookup_value example_host False (context_or_empty ?c)
      (Parameter ''{{b}}'')) = Inr (JNum 5)"
    by (simp add: c pb lookup_value_def call_if_function_def get_b)
  have t: "typeof (JNum 5) \<noteq> ''object''" "JNum 5 \<noteq> JUndefined" by simp_all
  from null_accumulator_throws [OF m pre a mid b t] show ?thesis .
qed

section \<open>Callable values\<close>







section \<open>Filling every placeholder in place\<close>

lemma scan_drop: "scan k s = scan 0 (drop k s)"
  by (induction k s rule: scan.induct) simp_all

lemma fill_drop: "fill T k s = fill T 0 (drop k s)"
  by (induction T k s rule: fill.induct) simp_all

lemma in_class_brace: "in_class CHR ''{''"
  by (simp add: in_class_def)

lemma lazy_rest_determined: "lazy_rest cs = Some r \<Longrightarrow> lazy_rest (r @ z) = Some r"
proof (induction cs arbitrary: r)
  case Nil
  then show ?case by simp
next
  case (Cons c cs)
  show ?case
  proof (cases "startsWith (c # cs) ''}}''")
    case True
    with Cons.prems have "r = ''}}''" by simp
    then show ?thesis by (simp add: startsWith_def)
  next
    case False
    with Cons.prems obtain r' where r': "lazy_rest cs = Some r'" "r = c # r'" "in_class c"
      by (auto split: if_splits)
    from lazy_rest_form [OF r'(1)] obtain b rest where form: "r' = b @ ''}}''" "cs = r' @ rest"
      by blast
    then have "take 2 (c # r' @ z) = take 2 (c # cs)" by (cases b) simp_all
    with False have "\<not> startsWith (c # r' @ z) ''}}''" by (simp add: startsWith_def)
    with r' Cons.IH [OF r'(1)] show ?thesis by simp
  qed
qed

lemma match_here_determined:
  assumes "match_here t = Some m"
  shows "match_here (m @ z) = Some m"
proof -
  from assms obtain c cs r where t: "t = CHR ''{'' # CHR ''{'' # c # cs" and c: "in_class c"
    and r: "lazy_rest cs = Some r" and m: "m = CHR ''{'' # CHR ''{'' # c # r"
    by (auto simp: match_here_def split: list.splits if_splits)
  from lazy_rest_determined [OF r] c m show ?thesis by (simp add: match_here_def)
qed

lemma lazy_rest_class_prefix:
  "\<forall>c \<in> set y. in_class c \<Longrightarrow> lazy_rest q \<noteq> None \<Longrightarrow> lazy_rest (y @ q) \<noteq> None"
  by (induction y) auto

lemma lazy_rest_append_cases:
  "lazy_rest (y @ z) = Some r \<Longrightarrow>
   (\<forall>c \<in> set y. in_class c) \<or> (\<forall>z'. lazy_rest (y @ z') = Some r)"
proof (induction y arbitrary: r)
  case Nil
  show ?case by simp
next
  case (Cons c y)
  show ?case
  proof (cases "startsWith (c # y @ z) ''}}''")
    case True
    with Cons.prems have r: "r = ''}}''" by simp
    show ?thesis
    proof (cases y)
      case Nil
      with True have "c = CHR ''}''" by (simp add: startsWith_def)
      with Nil show ?thesis by (simp add: in_class_def)
    next
      case (Cons d y')
      with True have "startsWith (c # y @ z') ''}}''" for z' by (simp add: startsWith_def)
      with r show ?thesis by simp
    qed
  next
    case False
    with Cons.prems obtain r' where r': "lazy_rest (y @ z) = Some r'" "r = c # r'" "in_class c"
      by (auto split: if_splits)
    from Cons.IH [OF r'(1)] show ?thesis
    proof
      assume "\<forall>c \<in> set y. in_class c"
      with r'(3) show ?thesis by simp
    next
      assume all: "\<forall>z'. lazy_rest (y @ z') = Some r'"
      then have "y \<noteq> []" by (metis append_Nil lazy_rest.simps(1) option.distinct(1))
      then obtain d y' where y: "y = d # y'" by (cases y) auto
      with False have "\<not> startsWith (c # y @ z') ''}}''" for z' by (simp add: startsWith_def)
      with all r' have "\<forall>z'. lazy_rest ((c # y) @ z') = Some r" by simp
      then show ?thesis by blast
    qed
  qed
qed

lemma match_here_parts:
  assumes "match_here (m @ rest) = Some m"
  shows "\<exists>c r. m = CHR ''{'' # CHR ''{'' # c # r \<and> in_class c \<and> lazy_rest (r @ rest) = Some r"
proof -
  from assms obtain c cs r where t: "m @ rest = CHR ''{'' # CHR ''{'' # c # cs"
    and c: "in_class c" and r: "lazy_rest cs = Some r" and m: "m = CHR ''{'' # CHR ''{'' # c # r"
    by (auto simp: match_here_def split: list.splits if_splits)
  from t m have "cs = r @ rest" by simp
  with r c m show ?thesis by blast
qed

text \<open>
  A text right before a match is dead: if the matcher could start in it and survive to
  its end, it would run on into the match and succeed there.
\<close>

lemma gap_dead:
  assumes m: "match_here (m @ rest) = Some m"
    and w: "w \<noteq> []"
    and none: "match_here (w @ m @ rest) = None"
  shows "match_here (w @ z) = None"
proof (rule ccontr)
  assume "match_here (w @ z) \<noteq> None"
  then obtain M where M: "match_here (w @ z) = Some M" by blast
  from match_here_parts [OF m] obtain c0 r0
    where m0: "m = CHR ''{'' # CHR ''{'' # c0 # r0" "in_class c0"
      and "lazy_rest (r0 @ rest) = Some r0"
    by blast
  then have r0: "lazy_rest (r0 @ rest) \<noteq> None" by simp
  from M obtain c cs r where wz: "w @ z = CHR ''{'' # CHR ''{'' # c # cs" and c: "in_class c"
    and r: "lazy_rest cs = Some r"
    by (auto simp: match_here_def split: list.splits if_splits)
  consider (one) "w = [CHR ''{'']" | (two) "w = [CHR ''{'', CHR ''{'']"
    | (more) y where "w = CHR ''{'' # CHR ''{'' # c # y" "cs = y @ z"
  proof (cases w)
    case Nil
    with w show ?thesis by simp
  next
    case w1: (Cons a w')
    show ?thesis
    proof (cases w')
      case Nil
      with w1 wz one show ?thesis by simp
    next
      case w2: (Cons b w'')
      show ?thesis
      proof (cases w'')
        case Nil
        with w1 w2 wz two show ?thesis by simp
      next
        case (Cons c' y)
        with w1 w2 wz more [of y] show ?thesis by simp
      qed
    qed
  qed
  then have "match_here (w @ m @ rest) \<noteq> None"
  proof cases
    case one
    have "lazy_rest ([c0] @ r0 @ rest) \<noteq> None"
      using lazy_rest_class_prefix [of "[c0]" "r0 @ rest"] m0 r0 by simp
    with one m0 show ?thesis by (simp add: match_here_def in_class_brace)
  next
    case two
    have "lazy_rest ([CHR ''{'', c0] @ r0 @ rest) \<noteq> None"
      using lazy_rest_class_prefix [of "[CHR ''{'', c0]" "r0 @ rest"] m0 r0
      by (simp add: in_class_brace)
    with two m0 show ?thesis by (simp add: match_here_def in_class_brace)
  next
    case (more y)
    from r more have "lazy_rest (y @ z) = Some r" by simp
    from lazy_rest_append_cases [OF this]
    have "lazy_rest (y @ m @ rest) \<noteq> None"
    proof
      assume "\<forall>c \<in> set y. in_class c"
      then have "lazy_rest ((y @ [CHR ''{'', CHR ''{'', c0]) @ r0 @ rest) \<noteq> None"
        using lazy_rest_class_prefix [of "y @ [CHR ''{'', CHR ''{'', c0]" "r0 @ rest"] m0 r0
        by (simp add: in_class_brace)
      with m0 show ?thesis by simp
    next
      assume "\<forall>z'. lazy_rest (y @ z') = Some r"
      then show ?thesis by simp
    qed
    with more c show ?thesis by (auto simp: match_here_def)
  qed
  with none show False by simp
qed

lemma inert_Nil: "inert []"
  by (simp add: inert_def)

lemma inert_append: "inert u \<Longrightarrow> inert v \<Longrightarrow> inert (u @ v)"
  unfolding inert_def
proof (intro allI impI)
  fix i z
  assume u: "\<forall>i < length u. \<forall>z. match_here (drop i u @ z) = None"
    and v: "\<forall>i < length v. \<forall>z. match_here (drop i v @ z) = None"
    and i: "i < length (u @ v)"
  show "match_here (drop i (u @ v) @ z) = None"
  proof (cases "i < length u")
    case True
    with u have "match_here (drop i u @ (v @ z)) = None" by blast
    with True show ?thesis by simp
  next
    case False
    with i have "i - length u < length v" by simp
    with v have "match_here (drop (i - length u) v @ z) = None" by blast
    with False show ?thesis by simp
  qed
qed

lemma inert_value: "CHR ''{'' \<notin> set x \<Longrightarrow> inert x"
  unfolding inert_def
proof (intro allI impI)
  fix i z
  assume x: "CHR ''{'' \<notin> set x" and i: "i < length x"
  then obtain d y where d: "drop i x = d # y" by (cases "drop i x") auto
  then have "d \<in> set (drop i x)" by simp
  then have "d \<in> set x" by (rule in_set_dropD)
  with x have "d \<noteq> CHR ''{''" by auto
  with d show "match_here (drop i x @ z) = None"
    by (auto simp: match_here_def split: list.splits)
qed

lemma inert_gap:
  assumes "match_here (m @ rest) = Some m"
    and "\<forall>i < length gap. match_here (drop i gap @ m @ rest) = None"
  shows "inert gap"
  unfolding inert_def
proof (intro allI impI)
  fix i z
  assume i: "i < length gap"
  then have ne: "drop i gap \<noteq> []" by simp
  from assms(2) i have none: "match_here (drop i gap @ m @ rest) = None" by blast
  from assms(1) ne none show "match_here (drop i gap @ z) = None"
    by (rule gap_dead)
qed

lemma inert_tl: "inert (d # u) \<Longrightarrow> inert u"
  unfolding inert_def
proof (intro allI impI)
  fix i z
  assume a: "\<forall>i < length (d # u). \<forall>z. match_here (drop i (d # u) @ z) = None"
    and i: "i < length u"
  from a [rule_format, of "Suc i" z] i
  show "match_here (drop i u @ z) = None" by simp
qed

lemma inert_hd:
  assumes "inert (d # u)"
  shows "match_here (d # u @ z) = None"
  using assms [unfolded inert_def, rule_format, of 0 z] by simp

lemma scan_inert: "inert u \<Longrightarrow> scan 0 (u @ v) = scan 0 v"
proof (induction u)
  case Nil
  show ?case by simp
next
  case (Cons d u)
  from inert_hd [OF Cons.prems, of v] Cons.IH [OF inert_tl [OF Cons.prems]]
  show ?case by simp
qed

lemma split_first_inert:
  assumes "inert u" and "match_here (M @ z0) = Some M"
  shows "split_first M (u @ v) = map_option (\<lambda>(b, a). (u @ b, a)) (split_first M v)"
  using assms(1)
proof (induction u)
  case Nil
  show ?case by (simp add: option.map_ident case_prod_unfold)
next
  case (Cons d u)
  have no: "\<not> startsWith (d # u @ v) M"
  proof
    assume "startsWith (d # u @ v) M"
    then have "d # u @ v = M @ drop (length M) (d # u @ v)"
      unfolding startsWith_def by (metis append_take_drop_id)
    with match_here_determined [OF assms(2), of "drop (length M) (d # u @ v)"]
    have "match_here (d # u @ v) = Some M" by simp
    with inert_hd [OF Cons.prems, of v] show False by simp
  qed
  from Cons.IH [OF inert_tl [OF Cons.prems]] no show ?case
    by (simp add: option.map_comp comp_def case_prod_unfold)
qed

lemma split_first_here:
  assumes "match_here (m @ rest) = Some m"
  shows "split_first m (m @ rest) = Some ([], rest)"
proof -
  from match_here_parts [OF assms] have "m \<noteq> []" by auto
  then obtain c cs where cs: "m @ rest = c # cs" by (cases m) auto
  have "startsWith (m @ rest) m" by (simp add: startsWith_def)
  with cs have "split_first m (c # cs) = Some ([], drop (length m) (c # cs))" by simp
  with cs [symmetric] show ?thesis by simp
qed

lemma fill_no_match: "scan 0 r = [] \<Longrightarrow> fill T 0 r = r"
  by (induction r) (auto split: option.splits)

text \<open>
  The first match of a text: the gap before it, in which the matcher fails at every
  position, the match and the rest, where the scan goes on.
\<close>

lemma scan_decompose:
  assumes "scan 0 r = m # ms"
  shows "\<exists>gap rest. r = gap @ m @ rest \<and> match_here (m @ rest) = Some m \<and>
           (\<forall>i < length gap. match_here (drop i gap @ m @ rest) = None) \<and>
           scan 0 rest = ms \<and> fill T 0 r = gap @ T m @ fill T 0 rest"
  using assms
proof (induction r)
  case Nil
  then show ?case by simp
next
  case (Cons c cs)
  show ?case
  proof (cases "match_here (c # cs)")
    case (Some m')
    with Cons.prems have m': "m' = m" and ms: "scan (length m - 1) cs = ms" by auto
    from Some m' match_here_prefix [of "c # cs" m] obtain rest where rest: "c # cs = m @ rest"
      by auto
    with Some m' have here: "match_here (m @ rest) = Some m" by simp
    from match_here_parts [OF here] have "m \<noteq> []" by auto
    with rest have cs: "cs = tl m @ rest" by (cases m) auto
    with \<open>m \<noteq> []\<close> have dr: "drop (length m - 1) cs = rest" by simp
    have "scan 0 rest = ms" using ms scan_drop [of "length m - 1" cs] dr by simp
    moreover have "fill T 0 (c # cs) = T m @ fill T 0 rest"
      using Some m' fill_drop [of T "length m - 1" cs] dr by simp
    ultimately have "c # cs = [] @ m @ rest \<and> match_here (m @ rest) = Some m \<and>
        (\<forall>i < length ([]::string). match_here (drop i [] @ m @ rest) = None) \<and>
        scan 0 rest = ms \<and> fill T 0 (c # cs) = [] @ T m @ fill T 0 rest"
      using rest here by simp
    then show ?thesis by blast
  next
    case None
    with Cons.prems have "scan 0 cs = m # ms" by simp
    from Cons.IH [OF this] obtain gap rest where g: "cs = gap @ m @ rest"
      "match_here (m @ rest) = Some m"
      "\<forall>i < length gap. match_here (drop i gap @ m @ rest) = None"
      "scan 0 rest = ms" "fill T 0 cs = gap @ T m @ fill T 0 rest"
      by blast
    have dead: "\<forall>i < length (c # gap). match_here (drop i (c # gap) @ m @ rest) = None"
    proof (intro allI impI)
      fix i assume i: "i < length (c # gap)"
      show "match_here (drop i (c # gap) @ m @ rest) = None"
      proof (cases i)
        case 0
        with None g(1) show ?thesis by simp
      next
        case (Suc j)
        with i g(3) show ?thesis by simp
      qed
    qed
    have "fill T 0 (c # cs) = (c # gap) @ T m @ fill T 0 rest"
      using None g(5) by simp
    with g dead have "c # cs = (c # gap) @ m @ rest \<and> match_here (m @ rest) = Some m \<and>
        (\<forall>i < length (c # gap). match_here (drop i (c # gap) @ m @ rest) = None) \<and>
        scan 0 rest = ms \<and> fill T 0 (c # cs) = (c # gap) @ T m @ fill T 0 rest"
      by simp
    then show ?thesis by blast
  qed
qed

lemma splice_here:
  assumes "inert u" and "match_here (m @ rest) = Some m"
  shows "splice_first T (u @ m @ rest) m = u @ T m @ rest"
  using split_first_inert [OF assms, of "m @ rest"] split_first_here [OF assms(2)]
  by (simp add: splice_first_def)

text \<open>
  When no value brings an opening brace, the first occurrence of a placeholder's text
  in the accumulator is the placeholder itself, and the splices fill every placeholder
  where it stands.
\<close>

lemma foldl_splice_fill:
  assumes "inert u" and "\<forall>m \<in> set (scan 0 r). CHR ''{'' \<notin> set (T m)"
  shows "foldl (splice_first T) (u @ r) (scan 0 r) = u @ fill T 0 r"
  using assms
proof (induction "scan 0 r" arbitrary: u r)
  case Nil
  then show ?case by (simp add: fill_no_match)
next
  case (Cons m ms)
  from Cons.hyps(2) have sc: "scan 0 r = m # ms" by simp
  from scan_decompose [OF sc, of T] obtain gap rest where g: "r = gap @ m @ rest"
    "match_here (m @ rest) = Some m"
    "\<forall>i < length gap. match_here (drop i gap @ m @ rest) = None"
    "scan 0 rest = ms" "fill T 0 r = gap @ T m @ fill T 0 rest"
    by blast
  from Cons.prems(2) sc have brace: "CHR ''{'' \<notin> set (T m)"
    and later: "\<forall>m \<in> set (scan 0 rest). CHR ''{'' \<notin> set (T m)"
    by (simp_all add: g(4))
  have ig: "inert (u @ gap)"
    using Cons.prems(1) inert_gap [OF g(2) g(3)] by (rule inert_append)
  then have iv: "inert ((u @ gap) @ T m)"
    using inert_value [OF brace] by (rule inert_append)
  have "splice_first T (u @ r) m = ((u @ gap) @ T m) @ rest"
    using splice_here [OF ig g(2), of T] by (simp add: g(1))
  moreover have "foldl (splice_first T) (((u @ gap) @ T m) @ rest) (scan 0 rest) =
      ((u @ gap) @ T m) @ fill T 0 rest"
    using g(4) [symmetric] iv later by (rule Cons.hyps(1))
  ultimately show ?case unfolding sc g(5) by (simp add: g(4))
qed

lemma scan_fill_empty:
  assumes "inert u" and "\<forall>m \<in> set (scan 0 r). CHR ''{'' \<notin> set (T m)"
  shows "scan 0 (u @ fill T 0 r) = []"
  using assms
proof (induction "scan 0 r" arbitrary: u r)
  case Nil
  then have "scan 0 r = []" by simp
  with scan_inert [OF Nil.prems(1), of r] show ?case by (simp add: fill_no_match)
next
  case (Cons m ms)
  from Cons.hyps(2) have sc: "scan 0 r = m # ms" by simp
  from scan_decompose [OF sc, of T] obtain gap rest where g: "r = gap @ m @ rest"
    "match_here (m @ rest) = Some m"
    "\<forall>i < length gap. match_here (drop i gap @ m @ rest) = None"
    "scan 0 rest = ms" "fill T 0 r = gap @ T m @ fill T 0 rest"
    by blast
  from Cons.prems(2) sc have brace: "CHR ''{'' \<notin> set (T m)"
    and later: "\<forall>m \<in> set (scan 0 rest). CHR ''{'' \<notin> set (T m)"
    by (simp_all add: g(4))
  have "inert (u @ gap)"
    using Cons.prems(1) inert_gap [OF g(2) g(3)] by (rule inert_append)
  then have iv: "inert ((u @ gap) @ T m)"
    using inert_value [OF brace] by (rule inert_append)
  have "scan 0 (((u @ gap) @ T m) @ fill T 0 rest) = []"
    using g(4) [symmetric] iv later by (rule Cons.hyps(1))
  then show ?case by (simp add: g(5))
qed

lemma string_replace_splice:
  assumes "T m = t" and "CHR ''$'' \<notin> set t"
  shows "string_replace acc m t = splice_first T acc m"
  using assms
  by (simp add: string_replace_def splice_first_def get_substitution_plain split: option.splits)

lemma substitute_primitive:
  assumes "typeof v \<in> {''boolean'', ''number'', ''string''}"
    and "to_string H v = Inr t" and "T m = t" and "CHR ''$'' \<notin> set t"
    and "whole_string n (JStr acc) = Inr False"
  shows "substitute H n (JStr acc) m v = Inr (JStr (splice_first T acc m))"
proof -
  from assms(1) have "typeof v \<noteq> ''object''" "v \<noteq> JUndefined" "v \<noteq> JNull" by auto
  then have "substitute H n (JStr acc) m v = js_replace H (JStr acc) m v"
    using assms(5) by (simp add: substitute_def)
  also have "\<dots> = Inr (JStr (string_replace acc m t))"
    using assms(1,2) by (rule js_replace_primitive)
  also have "string_replace acc m t = splice_first T acc m"
    using assms(3,4) by (rule string_replace_splice)
  finally show ?thesis .
qed

lemma steps_splice:
  assumes "\<forall>a. whole_string n (JStr a) = Inr False"
    and "\<forall>m \<in> set ms. \<exists>v. call_if_function (lookup_value H ev c (Parameter m)) = Inr v \<and>
           typeof v \<in> {''boolean'', ''number'', ''string''} \<and> to_string H v = Inr (T m) \<and>
           CHR ''$'' \<notin> set (T m)"
  shows "steps H ev n c ms (JStr acc) = Inr (JStr (foldl (splice_first T) acc ms))"
  using assms(2)
proof (induction ms arbitrary: acc)
  case Nil
  show ?case by simp
next
  case (Cons m ms)
  then obtain v where v: "call_if_function (lookup_value H ev c (Parameter m)) = Inr v"
    "typeof v \<in> {''boolean'', ''number'', ''string''}" "to_string H v = Inr (T m)"
    "CHR ''$'' \<notin> set (T m)"
    by auto
  from assms(1) have w: "whole_string n (JStr acc) = Inr False" by simp
  have "substitute H n (JStr acc) m v = Inr (JStr (splice_first T acc m))"
    using v(2) v(3) refl v(4) w by (rule substitute_primitive)
  moreover from Cons have "steps H ev n c ms (JStr (splice_first T acc m)) =
      Inr (JStr (foldl (splice_first T) (splice_first T acc m) ms))" by simp
  ultimately show ?case by (simp add: v(1))
qed

lemma whole_string_many: "n \<noteq> 1 \<Longrightarrow> whole_string n str = Inr False"
  by (simp add: whole_string_def)

lemma length_one: "length xs = 1 \<Longrightarrow> \<exists>x. xs = [x]"
  by (cases xs) auto

lemma render_spliced:
  assumes "\<not> (length (str_match s) = 1 \<and> startsWith s ''{{'' \<and> endsWith s ''}}'')"
    and "\<forall>m \<in> set (str_match s).
           \<exists>v. call_if_function (lookup_value H ev (context_or_empty context) (Parameter m)) =
                 Inr v \<and>
               typeof v \<in> {''boolean'', ''number'', ''string''} \<and> to_string H v = Inr (T m) \<and>
               CHR ''$'' \<notin> set (T m)"
  shows "fn (parseString H s ev) context =
           Inr (JStr (foldl (splice_first T) s (str_match s)))"
proof (cases "length (str_match s) = 1")
  case True
  with length_one [of "str_match s"] obtain m where m: "str_match s = [m]" by blast
  with assms(2) obtain v
    where v: "call_if_function (lookup_value H ev (context_or_empty context) (Parameter m)) =
        Inr v"
      "typeof v \<in> {''boolean'', ''number'', ''string''}" "to_string H v = Inr (T m)"
      "CHR ''$'' \<notin> set (T m)"
    by auto
  from True assms(1) have w: "whole_string 1 (JStr s) = Inr False"
    by (simp add: whole_string_def)
  have "substitute H 1 (JStr s) m v = Inr (JStr (splice_first T s m))"
    using v(2) v(3) refl v(4) w by (rule substitute_primitive)
  with v(1) m show ?thesis by (simp add: fn_parse_single [OF m])
next
  case False
  show ?thesis
  proof (cases "str_match s = []")
    case True
    then show ?thesis by (simp add: fn_parseString)
  next
    case ne: False
    from False have "\<forall>a. whole_string (length (str_match s)) (JStr a) = Inr False"
      by (simp add: whole_string_many)
    from steps_splice [OF this assms(2)] ne show ?thesis
      by (simp add: fn_parseString_matches)
  qed
qed

lemma spliced_is_filled:
  assumes "\<forall>m \<in> set (str_match s). CHR ''{'' \<notin> set (T m)"
  shows "foldl (splice_first T) s (str_match s) = fill T 0 s" and "str_match (fill T 0 s) = []"
proof -
  from assms have a: "\<forall>m \<in> set (scan 0 s). CHR ''{'' \<notin> set (T m)" by (simp add: str_match_def)
  from foldl_splice_fill [OF inert_Nil a]
  show "foldl (splice_first T) s (str_match s) = fill T 0 s" by (simp add: str_match_def)
  from scan_fill_empty [OF inert_Nil a] show "str_match (fill T 0 s) = []"
    by (simp add: str_match_def)
qed

section \<open>Native values and spliced values\<close>

text \<open>
  Claim C2, as amended. For a string with exactly one match that starts with two
  opening braces and ends with two closing braces, rendering returns the resolved value
  itself, with its native type (\<^verbatim>\<open>null\<close> when the value is \<^verbatim>\<open>undefined\<close>). In
  every other string, with one placeholder or with several, when every placeholder
  resolves to a string, a number or a boolean whose string form \<open>T m\<close> contains no
  dollar sign, rendering returns the string in which each value in turn has been
  stringified and put in place of the first occurrence of its placeholder's text in the
  string as it is then; when no string form contains an opening brace either, that is the
  string with every placeholder replaced where it stands. Step by step: in a string with
  several placeholders, the callback puts the string form of such a value in place of
  the first occurrence of the placeholder's text in any accumulator that is a string.
\<close>

theorem native_or_spliced:
  "(\<forall>m v. str_match s = [m] \<and> startsWith s ''{{'' \<and> endsWith s ''}}'' \<and>
      call_if_function (lookup_value H ev (context_or_empty context) (Parameter m)) = Inr v \<longrightarrow>
      fn (parse H (JStr s) ev) context = Inr (if v = JUndefined then JNull else v)) \<and>
   (\<not> (length (str_match s) = 1 \<and> startsWith s ''{{'' \<and> endsWith s ''}}'') \<and>
    (\<forall>m \<in> set (str_match s).
       \<exists>v. call_if_function (lookup_value H ev (context_or_empty context) (Parameter m)) = Inr v \<and>
           typeof v \<in> {''boolean'', ''number'', ''string''} \<and> to_string H v = Inr (T m) \<and>
           CHR ''$'' \<notin> set (T m)) \<longrightarrow>
      fn (parse H (JStr s) ev) context = Inr (JStr (foldl (splice_first T) s (str_match s))) \<and>
      ((\<forall>m \<in> set (str_match s). CHR ''{'' \<notin> set (T m)) \<longrightarrow>
         fn (parse H (JStr s) ev) context = Inr (JStr (fill T 0 s)))) \<and>
   (\<forall>ms params c i acc m v.
      length ms \<noteq> 1 \<and> call_if_function (lookup_value H ev c (params ! i)) = Inr v \<and>
      typeof v \<in> {''boolean'', ''number'', ''string''} \<and> to_string H v = Inr (T m) \<and>
      CHR ''$'' \<notin> set (T m) \<longrightarrow>
      reducer H ev ms params c (JStr acc) m i = Inr (JStr (splice_first T acc m)))"
proof -
  have native: "fn (parse H (JStr s) ev) context = Inr (if v = JUndefined then JNull else v)"
    if a: "str_match s = [m] \<and> startsWith s ''{{'' \<and> endsWith s ''}}'' \<and>
      call_if_function (lookup_value H ev (context_or_empty context) (Parameter m)) = Inr v"
    for m v
  proof -
    from a have m: "str_match s = [m]" and w: "whole_string 1 (JStr s) = Inr True"
      and v: "call_if_function (lookup_value H ev (context_or_empty context) (Parameter m)) =
        Inr v"
      by (simp_all add: whole_string_def)
    show ?thesis
      using v w by (cases v) (simp_all add: fn_parse_single [OF m] substitute_def)
  qed
  have spliced: "fn (parse H (JStr s) ev) context =
        Inr (JStr (foldl (splice_first T) s (str_match s))) \<and>
      ((\<forall>m \<in> set (str_match s). CHR ''{'' \<notin> set (T m)) \<longrightarrow>
        fn (parse H (JStr s) ev) context = Inr (JStr (fill T 0 s)))"
    if a: "\<not> (length (str_match s) = 1 \<and> startsWith s ''{{'' \<and> endsWith s ''}}'') \<and>
      (\<forall>m \<in> set (str_match s).
         \<exists>v. call_if_function (lookup_value H ev (context_or_empty context) (Parameter m)) =
               Inr v \<and>
             typeof v \<in> {''boolean'', ''number'', ''string''} \<and> to_string H v = Inr (T m) \<and>
             CHR ''$'' \<notin> set (T m))"
  proof -
    from a have "fn (parseString H s ev) context =
        Inr (JStr (foldl (splice_first T) s (str_match s)))"
      by (intro render_spliced) simp_all
    then have r: "fn (parse H (JStr s) ev) context =
        Inr (JStr (foldl (splice_first T) s (str_match s)))"
      by simp
    have "fn (parse H (JStr s) ev) context = Inr (JStr (fill T 0 s))"
      if "\<forall>m \<in> set (str_match s). CHR ''{'' \<notin> set (T m)"
      using spliced_is_filled(1) [OF that] r by simp
    with r show ?thesis by blast
  qed
  have step: "reducer H ev ms params c (JStr acc) m i = Inr (JStr (splice_first T acc m))"
    if a: "length ms \<noteq> 1 \<and> call_if_function (lookup_value H ev c (params ! i)) = Inr v \<and>
      typeof v \<in> {''boolean'', ''number'', ''string''} \<and> to_string H v = Inr (T m) \<and>
      CHR ''$'' \<notin> set (T m)"
    for ms :: "string list" and params c i acc m v
  proof -
    from a have w: "whole_string (length ms) (JStr acc) = Inr False"
      by (simp add: whole_string_many)
    from a have p: "typeof v \<in> {''boolean'', ''number'', ''string''}"
      "to_string H v = Inr (T m)" "CHR ''$'' \<notin> set (T m)" by simp_all
    have "substitute H (length ms) (JStr acc) m v = Inr (JStr (splice_first T acc m))"
      using p(1) p(2) refl p(3) w by (rule substitute_primitive)
    with a show ?thesis by (simp add: reducer_def Let_def)
  qed
  from native spliced step show ?thesis by blast
qed

lemma get_a_b:
  "objectPath_get example_host (JObj [(''a'', JNum 5), (''b'', JBool True)]) ''a'' = JNum 5"
  "objectPath_get example_host (JObj [(''a'', JNum 5), (''b'', JBool True)]) ''b'' = JBool True"
  by (simp_all add: example_host_def path_get_def segments_def)

theorem native_or_spliced_witness:
  "fn (parse example_host (JStr ''{{a}}'') False) (JObj [(''a'', JNum 5), (''b'', JBool True)]) =
     Inr (JNum 5) \<and>
   fn (parse example_host (JStr ''{{a}} x }}'') False)
     (JObj [(''a'', JNum 5), (''b'', JBool True)]) = Inr (JNum 5) \<and>
   fn (parse example_host (JStr ''x {{a}} y'') False)
     (JObj [(''a'', JNum 5), (''b'', JBool True)]) = Inr (JStr ''x 5 y'') \<and>
   fn (parse example_host (JStr ''x {{a}} y {{b}}'') False)
     (JObj [(''a'', JNum 5), (''b'', JBool True)]) = Inr (JStr ''x 5 y true'')"
proof -
  let ?c = "JObj [(''a'', JNum 5), (''b'', JBool True)]"
  let ?T = "\<lambda>m. if m = ''{{a}}'' then ''5'' else ''true''"
  have c: "context_or_empty ?c = ?c" by (simp add: context_or_empty_def)
  have m1: "str_match ''{{a}}'' = [''{{a}}'']" by code_simp
  have m2: "str_match ''{{a}} x }}'' = [''{{a}}'']" by code_simp
  have m3: "str_match ''x {{a}} y'' = [''{{a}}'']" by code_simp
  have m4: "str_match ''x {{a}} y {{b}}'' = [''{{a}}'', ''{{b}}'']" by code_simp
  have pa: "Parameter ''{{a}}'' = \<lparr>key = ''a'', defaultValue = None\<rparr>" by code_simp
  have pb: "Parameter ''{{b}}'' = \<lparr>key = ''b'', defaultValue = None\<rparr>" by code_simp
  have va: "call_if_function (lookup_value example_host False (context_or_empty ?c)
      (Parameter ''{{a}}'')) = Inr (JNum 5)"
    by (simp add: c pa lookup_value_def call_if_function_def get_a_b)
  have vb: "call_if_function (lookup_value example_host False (context_or_empty ?c)
      (Parameter ''{{b}}'')) = Inr (JBool True)"
    by (simp add: c pb lookup_value_def call_if_function_def get_a_b)
  have ta: "string_of_int 5 = ''5''" by code_simp
  have w1: "startsWith ''{{a}}'' ''{{'' \<and> endsWith ''{{a}}'' ''}}''"
    by (simp add: startsWith_def endsWith_def)
  have w2: "startsWith ''{{a}} x }}'' ''{{'' \<and> endsWith ''{{a}} x }}'' ''}}''"
    by (simp add: startsWith_def endsWith_def)
  have w3: "\<not> (length (str_match ''x {{a}} y'') = 1 \<and>
      startsWith ''x {{a}} y'' ''{{'' \<and> endsWith ''x {{a}} y'' ''}}'')"
    by (simp add: startsWith_def)
  have w4: "\<not> (length (str_match ''x {{a}} y {{b}}'') = 1 \<and>
      startsWith ''x {{a}} y {{b}}'' ''{{'' \<and> endsWith ''x {{a}} y {{b}}'' ''}}'')"
    by (simp add: startsWith_def)
  have v3: "\<forall>m \<in> set (str_match ''x {{a}} y'').
      \<exists>v. call_if_function (lookup_value example_host False (context_or_empty ?c) (Parameter m)) =
            Inr v \<and>
          typeof v \<in> {''boolean'', ''number'', ''string''} \<and>
          to_string example_host v = Inr (?T m) \<and> CHR ''$'' \<notin> set (?T m)"
    by (simp add: m3 va ta)
  have v4: "\<forall>m \<in> set (str_match ''x {{a}} y {{b}}'').
      \<exists>v. call_if_function (lookup_value example_host False (context_or_empty ?c) (Parameter m)) =
            Inr v \<and>
          typeof v \<in> {''boolean'', ''number'', ''string''} \<and>
          to_string example_host v = Inr (?T m) \<and> CHR ''$'' \<notin> set (?T m)"
    by (simp add: m4 va vb ta)
  have b3: "\<forall>m \<in> set (str_match ''x {{a}} y''). CHR ''{'' \<notin> set (?T m)" by (simp add: m3)
  have b4: "\<forall>m \<in> set (str_match ''x {{a}} y {{b}}''). CHR ''{'' \<notin> set (?T m)"
    by (simp add: m4)
  have f3: "fill ?T 0 ''x {{a}} y'' = ''x 5 y''" by code_simp
  have f4: "fill ?T 0 ''x {{a}} y {{b}}'' = ''x 5 y true''" by code_simp
  from native_or_spliced [of "''{{a}}''" example_host False ?c ?T] m1 w1 va
  have r1: "fn (parse example_host (JStr ''{{a}}'') False) ?c = Inr (JNum 5)" by simp
  from native_or_spliced [of "''{{a}} x }}''" example_host False ?c ?T] m2 w2 va
  have r2: "fn (parse example_host (JStr ''{{a}} x }}'') False) ?c = Inr (JNum 5)" by simp
  from native_or_spliced [of "''x {{a}} y''" example_host False ?c ?T] w3 v3 b3
  have "fn (parse example_host (JStr ''x {{a}} y'') False) ?c =
      Inr (JStr (fill ?T 0 ''x {{a}} y''))" by blast
  then have r3: "fn (parse example_host (JStr ''x {{a}} y'') False) ?c = Inr (JStr ''x 5 y'')"
    by (simp only: f3)
  from native_or_spliced [of "''x {{a}} y {{b}}''" example_host False ?c ?T] w4 v4 b4
  have "fn (parse example_host (JStr ''x {{a}} y {{b}}'') False) ?c =
      Inr (JStr (fill ?T 0 ''x {{a}} y {{b}}''))" by blast
  then have r4: "fn (parse example_host (JStr ''x {{a}} y {{b}}'') False) ?c =
      Inr (JStr ''x 5 y true'')"
    by (simp only: f4)
  from r1 r2 r3 r4 show ?thesis by simp
qed

text \<open>
  The claim as the specification states it splices the string form of the value into
  the text. A value with a dollar sign is not spliced as it is: \<^verbatim>\<open>$$\<close> arrives as one
  dollar sign, and \<^verbatim>\<open>$&\<close> as the placeholder itself.
\<close>

theorem dollar_not_spliced:
  "fn (parse example_host (JStr ''x {{a}} y'') False) (JObj [(''a'', JStr ''$$'')]) =
     Inr (JStr ''x $ y'') \<and>
   fn (parse example_host (JStr ''x {{a}} y'') False) (JObj [(''a'', JStr ''$$'')]) \<noteq>
     Inr (JStr ''x $$ y'') \<and>
   fn (parse example_host (JStr ''x {{a}} y'') False) (JObj [(''a'', JStr ''$&'')]) =
     Inr (JStr ''x {{a}} y'')"
  by code_simp

section \<open>Repeated placeholders\<close>

text \<open>
  Claim C8, as amended. In a string with two or more placeholders, identical ones
  included, each step of the reduction replaces only the first occurrence of the matched
  text in the accumulator, and the accumulator is what the steps before have left. So
  when every placeholder resolves to a string (or a number or a boolean) whose string
  form \<open>T m\<close> contains neither an opening brace nor a dollar sign, every placeholder,
  repeated or not, is replaced where it stands, and the result has no placeholder left:
  the string is resolved, not under-filled.
\<close>

theorem repeated_placeholder:
  assumes "2 \<le> length (str_match s)"
    and "\<forall>m \<in> set (str_match s).
           \<exists>v. call_if_function (lookup_value H ev (context_or_empty context) (Parameter m)) =
                 Inr v \<and>
               typeof v \<in> {''boolean'', ''number'', ''string''} \<and> to_string H v = Inr (T m) \<and>
               CHR ''{'' \<notin> set (T m) \<and> CHR ''$'' \<notin> set (T m)"
  shows "(\<forall>i acc b a. i < length (str_match s) \<and>
            split_first (str_match s ! i) acc = Some (b, a) \<longrightarrow>
            reducer H ev (str_match s) (map Parameter (str_match s)) (context_or_empty context)
              (JStr acc) (str_match s ! i) i = Inr (JStr (b @ T (str_match s ! i) @ a))) \<and>
         fn (parse H (JStr s) ev) context = Inr (JStr (fill T 0 s)) \<and>
         str_match (fill T 0 s) = []"
proof -
  let ?c = "context_or_empty context" and ?ms = "str_match s"
  from assms(1) have many: "length ?ms \<noteq> 1" by simp
  have step: "reducer H ev ?ms (map Parameter ?ms) ?c (JStr acc) (?ms ! i) i =
      Inr (JStr (b @ T (?ms ! i) @ a))"
    if a: "i < length ?ms \<and> split_first (?ms ! i) acc = Some (b, a)" for i acc b a
  proof -
    from a have "?ms ! i \<in> set ?ms" by simp
    with assms(2) obtain v
      where v: "call_if_function (lookup_value H ev ?c (Parameter (?ms ! i))) = Inr v"
        "typeof v \<in> {''boolean'', ''number'', ''string''}" "to_string H v = Inr (T (?ms ! i))"
        "CHR ''$'' \<notin> set (T (?ms ! i))"
      by blast
    from many have w: "whole_string (length ?ms) (JStr acc) = Inr False"
      by (rule whole_string_many)
    have "substitute H (length ?ms) (JStr acc) (?ms ! i) v =
        Inr (JStr (splice_first T acc (?ms ! i)))"
      using v(2) v(3) refl v(4) w by (rule substitute_primitive)
    moreover from a have "splice_first T acc (?ms ! i) = b @ T (?ms ! i) @ a"
      by (simp add: splice_first_def)
    ultimately show ?thesis using a v(1) by (simp add: reducer_def Let_def)
  qed
  from assms(2) have dollar: "\<forall>m \<in> set ?ms.
      \<exists>v. call_if_function (lookup_value H ev ?c (Parameter m)) = Inr v \<and>
          typeof v \<in> {''boolean'', ''number'', ''string''} \<and> to_string H v = Inr (T m) \<and>
          CHR ''$'' \<notin> set (T m)"
    by blast
  from assms(2) have brace: "\<forall>m \<in> set ?ms. CHR ''{'' \<notin> set (T m)" by blast
  from many have "\<not> (length ?ms = 1 \<and> startsWith s ''{{'' \<and> endsWith s ''}}'')" by simp
  from render_spliced [OF this dollar] spliced_is_filled(1) [OF brace]
  have "fn (parse H (JStr s) ev) context = Inr (JStr (fill T 0 s))" by simp
  with step spliced_is_filled(2) [OF brace] show ?thesis by blast
qed

lemma get_X: "objectPath_get example_host (JObj [(''a'', JStr ''X'')]) ''a'' = JStr ''X''"
  by (simp add: example_host_def path_get_def segments_def)

theorem repeated_placeholder_witness:
  "fn (parse example_host (JStr ''{{a}} and {{a}}'') False) (JObj [(''a'', JStr ''X'')]) =
     Inr (JStr ''X and X'') \<and>
   str_match ''X and X'' = []"
proof -
  let ?c = "JObj [(''a'', JStr ''X'')]"
  let ?T = "\<lambda>m::string. ''X''"
  have c: "context_or_empty ?c = ?c" by (simp add: context_or_empty_def)
  have m: "str_match ''{{a}} and {{a}}'' = [''{{a}}'', ''{{a}}'']" by code_simp
  have n: "2 \<le> length (str_match ''{{a}} and {{a}}'')" by (simp add: m)
  have p: "Parameter ''{{a}}'' = \<lparr>key = ''a'', defaultValue = None\<rparr>" by code_simp
  have v: "call_if_function (lookup_value example_host False (context_or_empty ?c)
      (Parameter ''{{a}}'')) = Inr (JStr ''X'')"
    by (simp add: c p lookup_value_def call_if_function_def get_X)
  have vals: "\<forall>m \<in> set (str_match ''{{a}} and {{a}}'').
      \<exists>v. call_if_function (lookup_value example_host False (context_or_empty ?c) (Parameter m)) =
            Inr v \<and>
          typeof v \<in> {''boolean'', ''number'', ''string''} \<and>
          to_string example_host v = Inr (?T m) \<and>
          CHR ''{'' \<notin> set (?T m) \<and> CHR ''$'' \<notin> set (?T m)"
    by (simp add: m v)
  have f: "fill ?T 0 ''{{a}} and {{a}}'' = ''X and X''" by code_simp
  from repeated_placeholder [OF n vals]
  have "fn (parse example_host (JStr ''{{a}} and {{a}}'') False) ?c =
      Inr (JStr (fill ?T 0 ''{{a}} and {{a}}'')) \<and>
    str_match (fill ?T 0 ''{{a}} and {{a}}'') = []"
    by blast
  then show ?thesis by (simp only: f)
qed

text \<open>
  The claim as the specification states it leaves repeated placeholders unfilled. With
  the string \<^verbatim>\<open>X\<close> for \<^verbatim>\<open>a\<close> the result has no placeholder left.
\<close>

theorem repeated_placeholder_filled:
  "fn (parse example_host (JStr ''{{a}} and {{a}}'') False) (JObj [(''a'', JStr ''X'')]) =
     Inr (JStr ''X and X'') \<and>
   str_match ''X and X'' = [] \<and>
   fn (parse example_host (JStr ''{{a}} and {{a}}'') False) (JObj [(''a'', JStr ''X'')]) \<noteq>
     Inr (JStr ''X and {{a}}'')"
  by code_simp

text \<open>
  The condition on the opening brace is needed: a value that brings the text of a later
  placeholder takes the place of that placeholder in the step that fills it.
\<close>

lemma brace_value_misplaces:
  "fn (parse example_host (JStr ''{{b}} {{a}} {{a}}'') False)
     (JObj [(''a'', JStr ''X''), (''b'', JStr ''{{a}}'')]) = Inr (JStr ''X X {{a}}'')"
  by code_simp

end
